theory Spec2Isabelle
  imports Complex_Main
begin

section \<open>Agents of the snake environment (agent.py)\<close>

text \<open>
  The agents of \<^verbatim>\<open>agent.py\<close> are embedded function by function. Python's unbounded
  integers are \<^typ>\<open>int\<close>; \<^verbatim>\<open>//\<close> and \<^verbatim>\<open>%\<close> are floor division and
  its remainder, which is what \<open>div\<close> and \<open>mod\<close> are on \<^typ>\<open>int\<close>. Exceptions are
  values of the type \<open>error\<close>, returned on the left of a sum.
\<close>

datatype error = AssertionError | ValueError | IndexError | ZeroDivisionError | RuntimeError

subsection \<open>Agent: the coordinate conversions\<close>

text \<open>
  \<^verbatim>\<open>_point_to_row_col\<close> returns \<^verbatim>\<open>(point//self._board_size, point%self._board_size)\<close>,
  \<^verbatim>\<open>_row_col_to_point\<close> returns \<^verbatim>\<open>row*self._board_size + col\<close>. The first argument
  is the agent's \<^verbatim>\<open>_board_size\<close>. An agent only exists with a positive board size
  (\<^verbatim>\<open>Agent.__init__\<close> reshapes \<^verbatim>\<open>np.arange(0, board_size**2)\<close> to
  \<^verbatim>\<open>(board_size, -1)\<close>, which numpy refuses for a size that is zero or negative), so
  the division never has a zero divisor.
\<close>

definition point_to_row_col :: "int \<Rightarrow> int \<Rightarrow> int \<times> int" where
  "point_to_row_col board_size point = (point div board_size, point mod board_size)"

definition row_col_to_point :: "int \<Rightarrow> int \<Rightarrow> int \<Rightarrow> int" where
  "row_col_to_point board_size row col = row * board_size + col"

subsection \<open>HamiltonianCycleAgent: construction of the cycle\<close>

text \<open>
  One pass of the body of the \<^verbatim>\<open>while\<close> loop of \<^verbatim>\<open>_get_cycle_square\<close>: the new
  value of \<^verbatim>\<open>sp\<close> from the loop index and the old value, branch by branch in the
  order of the source.
\<close>

definition cycle_step :: "int \<Rightarrow> nat \<Rightarrow> int \<Rightarrow> int" where
  "cycle_step n index sp =
    (if index = 0 then sp
     else if sp div n = 2 \<and> sp mod n = n - 2 then (sp div n - 1) * n + sp mod n
     else if index \<noteq> 1 \<and> sp div n = 1 then (sp div n) * n + (sp mod n - 1)
     else if (sp mod n) mod 2 = 1 then
       (let sp1 = (sp div n + 1) * n + sp mod n
        in if sp1 div n = n - 1 then (sp1 div n - 1) * n + (sp1 mod n + 1) else sp1)
     else
       (let sp1 = (sp div n - 1) * n + sp mod n
        in if sp1 div n = 1 then (sp1 div n + 1) * n + (sp1 mod n + 1) else sp1))"

text \<open>
  The loop itself: \<^verbatim>\<open>while(index < self._cycle.shape[0])\<close>, storing \<^verbatim>\<open>sp\<close> at
  \<^verbatim>\<open>index\<close> and incrementing the index.
\<close>

function cycle_loop :: "int \<Rightarrow> nat \<Rightarrow> int \<Rightarrow> int list \<Rightarrow> int list" where
  "cycle_loop n index sp cyc =
    (if index < length cyc
     then (let sp' = cycle_step n index sp in cycle_loop n (index + 1) sp' (cyc[index := sp']))
     else cyc)"
  by pat_completeness auto
termination
  by (relation "measure (\<lambda>(n, index, sp, cyc). length cyc - index)") auto

declare cycle_loop.simps [simp del]

text \<open>
  \<^verbatim>\<open>_get_cycle_square\<close>: the array of \<^verbatim>\<open>(board_size-2)**2\<close> zeros, and the loop from
  index 0 and \<^verbatim>\<open>sp = 1*board_size + 1\<close>.
\<close>

definition get_cycle_square :: "int \<Rightarrow> int list" where
  "get_cycle_square n = cycle_loop n 0 (1 * n + 1) (replicate (nat ((n - 2) ^ 2)) 0)"

record hamiltonian_agent =
  board_size :: int
  n_frames :: nat
  cycle :: "int list"

text \<open>
  \<^verbatim>\<open>HamiltonianCycleAgent.__init__\<close>: the assertion on the parity of the board size,
  then \<^verbatim>\<open>Agent.__init__\<close> (which raises \<^verbatim>\<open>ValueError\<close> in numpy's reshape when the
  size is not positive), then \<^verbatim>\<open>_get_cycle_square\<close>.
\<close>

definition HamiltonianCycleAgent_init :: "int \<Rightarrow> nat \<Rightarrow> error + hamiltonian_agent" where
  "HamiltonianCycleAgent_init n frames =
    (if n mod 2 \<noteq> 0 then Inl AssertionError
     else if n \<le> 0 then Inl ValueError
     else Inr \<lparr>board_size = n, n_frames = frames, cycle = get_cycle_square n\<rparr>)"

subsection \<open>Arrays, boards and cell values\<close>

text \<open>
  Indexing as Python and numpy do it: an index \<open>i\<close> with \<open>- len \<le> i < len\<close> reads the element
  \<open>i mod len\<close> (negative indices count from the end), any other index raises
  \<^verbatim>\<open>IndexError\<close>.
\<close>

definition np_get :: "'a list \<Rightarrow> int \<Rightarrow> error + 'a" where
  "np_get xs i =
    (let n = int (length xs)
     in if - n \<le> i \<and> i < n then Inr (xs ! nat (i mod n)) else Inl IndexError)"

definition np_get3 :: "'a list list list \<Rightarrow> int \<Rightarrow> int \<Rightarrow> int \<Rightarrow> error + 'a" where
  "np_get3 a i j k =
    (case np_get a i of Inl e \<Rightarrow> Inl e | Inr row \<Rightarrow>
     case np_get row j of Inl e \<Rightarrow> Inl e | Inr cell \<Rightarrow> np_get cell k)"

text \<open>
  The \<^verbatim>\<open>values\<close> dictionary of the environment, with the keys the agents read. A board is
  the array \<^verbatim>\<open>board[row][col][frame]\<close>; \<open>has_shape n f b\<close> says that it is an array of
  shape \<open>(n, n, f)\<close>, the agent's \<^verbatim>\<open>_input_shape\<close>. \<open>frame b k\<close> is \<^verbatim>\<open>board[:,:,k]\<close>.
\<close>

record cell_values =
  board_value :: int
  snake_value :: int
  food_value :: int
  head_value :: int

type_synonym board = "int list list list"

definition has_shape :: "int \<Rightarrow> nat \<Rightarrow> board \<Rightarrow> bool" where
  "has_shape n f b \<longleftrightarrow>
     int (length b) = n \<and>
     list_all (\<lambda>row. int (length row) = n \<and> list_all (\<lambda>cell. length cell = f) row) b"

definition frame :: "board \<Rightarrow> nat \<Rightarrow> int list list" where
  "frame b k = map (map (\<lambda>cell. cell ! k)) b"

text \<open>
  \<^verbatim>\<open>(self._board_grid * (grid == v)).sum()\<close>: \<^verbatim>\<open>_board_grid\<close> holds the flat index of
  every cell, so the sum adds the flat indices of the cells of the grid that hold \<open>v\<close>
  (the index of the cell when exactly one does, 0 when none does).
\<close>

definition find_value :: "int list list \<Rightarrow> int \<Rightarrow> int" where
  "find_value grid v =
     sum_list (map (\<lambda>(k, x). if x = v then int k else 0) (enumerate 0 (concat grid)))"

subsection \<open>HamiltonianCycleAgent: move\<close>

text \<open>
  The \<^verbatim>\<open>while(1)\<close> loop that looks the head up in the cycle. It returns only when it
  meets the head (or a read fails), so it is a partial function: \<open>None\<close> is the loop that
  never returns.
\<close>

partial_function (option) find_on_cycle ::
  "int list \<Rightarrow> int \<Rightarrow> int \<Rightarrow> int \<Rightarrow> (error + int) option" where
  "find_on_cycle cyc cy_len curr_head index =
    (case np_get cyc index of
       Inl e \<Rightarrow> Some (Inl e)
     | Inr v \<Rightarrow>
         if v = curr_head then Some (Inr index)
         else if cy_len = 0 then Some (Inl ZeroDivisionError)
         else find_on_cycle cyc cy_len curr_head ((index + 1) mod cy_len))"

text \<open>The chain of tests on \<^verbatim>\<open>(dx, dy)\<close> that ends \<^verbatim>\<open>move\<close>, with its \<^verbatim>\<open>return -1\<close>.\<close>

definition displacement_action :: "int \<Rightarrow> int \<Rightarrow> int" where
  "displacement_action dx dy =
    (if dx = 1 \<and> dy = 0 then 0
     else if dx = 0 \<and> dy = 1 then 1
     else if dx = - 1 \<and> dy = 0 then 2
     else if dx = 0 \<and> dy = - 1 then 3
     else - 1)"

definition intended_direction :: "int \<Rightarrow> int \<Rightarrow> int \<Rightarrow> int" where
  "intended_direction n curr_head next_head =
    (case point_to_row_col n curr_head of (curr_head_row, curr_head_col) \<Rightarrow>
     case point_to_row_col n next_head of (next_head_row, next_head_col) \<Rightarrow>
       let dx = next_head_col - curr_head_col; dy = - next_head_row + curr_head_row
       in displacement_action dx dy)"

text \<open>The part of \<^verbatim>\<open>move\<close> after the three cells are known (\<^verbatim>\<open># get the next move\<close>).\<close>

definition next_move :: "int \<Rightarrow> board \<Rightarrow> int \<Rightarrow> int \<Rightarrow> int \<Rightarrow> error + int" where
  "next_move n b prev_head curr_head next_head =
    (case np_get3 b (prev_head div n) (prev_head mod n) 0 of
       Inl e \<Rightarrow> Inl e
     | Inr v \<Rightarrow>
         if v = 0 then Inr (if next_head > curr_head then 3 else 1)
         else Inr (intended_direction n curr_head next_head))"

text \<open>
  \<^verbatim>\<open>HamiltonianCycleAgent.move\<close>. The board is one state of the agent's input shape; numpy
  refuses the reshape of the head mask for a board of another size, which is the
  \<^verbatim>\<open>ValueError\<close> of the first test.
\<close>

definition hamiltonian_move ::
  "hamiltonian_agent \<Rightarrow> board \<Rightarrow> cell_values \<Rightarrow> (error + int) option" where
  "hamiltonian_move agent b vals =
    (let n = board_size agent; cy_len = (n - 2) ^ 2
     in if \<not> has_shape n (n_frames agent) b \<or> n_frames agent = 0 then Some (Inl ValueError)
        else
          (let curr_head = find_value (frame b 0) (head_value vals)
           in case find_on_cycle (cycle agent) cy_len curr_head 0 of
                None \<Rightarrow> None
              | Some (Inl e) \<Rightarrow> Some (Inl e)
              | Some (Inr index) \<Rightarrow>
                  if cy_len = 0 then Some (Inl ZeroDivisionError)
                  else
                    (case np_get (cycle agent) ((index - 1) mod cy_len) of
                       Inl e \<Rightarrow> Some (Inl e)
                     | Inr prev_head \<Rightarrow>
                         (case np_get (cycle agent) ((index + 1) mod cy_len) of
                            Inl e \<Rightarrow> Some (Inl e)
                          | Inr next_head \<Rightarrow> Some (next_move n b prev_head curr_head next_head)))))"

text \<open>The table of the specification: displacement \<open>(dx, dy)\<close> to action.\<close>

definition direction_table :: "int \<times> int \<Rightarrow> int option" where
  "direction_table = [(1, 0) \<mapsto> 0, (0, 1) \<mapsto> 1, (- 1, 0) \<mapsto> 2, (0, - 1) \<mapsto> 3]"

subsection \<open>Vocabulary of the cycle properties\<close>

text \<open>
  The Manhattan distance of two flat cell indices, through \<^verbatim>\<open>_point_to_row_col\<close>, and the
  set of interior cells: rows and columns 1 to \<open>board_size - 2\<close>.
\<close>

definition manhattan :: "int \<Rightarrow> int \<Rightarrow> int \<Rightarrow> int" where
  "manhattan n p q =
    (case point_to_row_col n p of (r1, c1) \<Rightarrow>
     case point_to_row_col n q of (r2, c2) \<Rightarrow> \<bar>r1 - r2\<bar> + \<bar>c1 - c2\<bar>)"

definition interior_cells :: "int \<Rightarrow> int set" where
  "interior_cells n =
    {p. \<exists>r c. p = row_col_to_point n r c \<and> 1 \<le> r \<and> r \<le> n - 2 \<and> 1 \<le> c \<and> c \<le> n - 2}"

text \<open>
  Proof devices for the sweep. \<open>sweep n i\<close> is the value the loop stores at index \<open>i\<close>;
  \<open>step_rc\<close> is \<open>cycle_step\<close> read on (row, column) pairs; \<open>rank m r c\<close> is the
  position at which the sweep over an interior of side \<open>m\<close> reaches the cell \<open>(r, c)\<close>:
  down column 1, then up the even and down the odd columns on rows 2 to \<open>m\<close>, then back
  along row 1.
\<close>

fun sweep :: "int \<Rightarrow> nat \<Rightarrow> int" where
  "sweep n 0 = cycle_step n 0 (1 * n + 1)"
| "sweep n (Suc i) = cycle_step n (Suc i) (sweep n i)"

definition sp_before :: "int \<Rightarrow> nat \<Rightarrow> int" where
  "sp_before n index = (if index = 0 then 1 * n + 1 else sweep n (index - 1))"

definition step_rc :: "int \<Rightarrow> nat \<Rightarrow> int \<times> int \<Rightarrow> int \<times> int" where
  "step_rc n index rc =
    (case rc of (r, c) \<Rightarrow>
      if index = 0 then (r, c)
      else if r = 2 \<and> c = n - 2 then (r - 1, c)
      else if index \<noteq> 1 \<and> r = 1 then (r, c - 1)
      else if c mod 2 = 1 then (if r + 1 = n - 1 then (r, c + 1) else (r + 1, c))
      else (if r - 1 = 1 then (r, c + 1) else (r - 1, c)))"

definition rank :: "int \<Rightarrow> int \<Rightarrow> int \<Rightarrow> int" where
  "rank m r c =
    (if c = 1 then r - 1
     else if r = 1 then m + (m - 1) * (m - 1) + (m - c)
     else if even c then m + (c - 2) * (m - 1) + (m - r)
     else m + (c - 2) * (m - 1) + (r - 2))"

definition interior_rc :: "int \<Rightarrow> int \<Rightarrow> int \<Rightarrow> bool" where
  "interior_rc n r c \<longleftrightarrow> 1 \<le> r \<and> r \<le> n - 2 \<and> 1 \<le> c \<and> c \<le> n - 2"

definition on_cycle :: "int \<Rightarrow> nat \<Rightarrow> int \<Rightarrow> bool" where
  "on_cycle n i sp \<longleftrightarrow>
     interior_rc n (sp div n) (sp mod n) \<and> rank (n - 2) (sp div n) (sp mod n) = int i"

subsection \<open>Example inputs\<close>

text \<open>Example inputs: the cell codes of the environment and a board of side 4.\<close>

definition example_values :: cell_values where
  "example_values = \<lparr>board_value = 0, snake_value = 1, food_value = 3, head_value = 2\<rparr>"

definition small_board :: board where
  "small_board =
    [[[4], [4], [4], [4]],
     [[4], [1], [0], [4]],
     [[4], [2], [3], [4]],
     [[4], [4], [4], [4]]]"

text \<open>A board of side 10 with its border, the head at (1,1) and the food at (1,3).\<close>

definition open_grid :: "int list list" where
  "open_grid =
    [[4, 4, 4, 4, 4, 4, 4, 4, 4, 4],
     [4, 2, 0, 3, 0, 0, 0, 0, 0, 4],
     [4, 0, 0, 0, 0, 0, 0, 0, 0, 4],
     [4, 0, 0, 0, 0, 0, 0, 0, 0, 4],
     [4, 0, 0, 0, 0, 0, 0, 0, 0, 4],
     [4, 0, 0, 0, 0, 0, 0, 0, 0, 4],
     [4, 0, 0, 0, 0, 0, 0, 0, 0, 4],
     [4, 0, 0, 0, 0, 0, 0, 0, 0, 4],
     [4, 0, 0, 0, 0, 0, 0, 0, 0, 4],
     [4, 4, 4, 4, 4, 4, 4, 4, 4, 4]]"

text \<open>The board of two frames that shows the grid in both.\<close>

definition board_of_grid :: "int list list \<Rightarrow> board" where
  "board_of_grid grid = map (map (\<lambda>v. [v, v])) grid"

text \<open>The board of one frame that shows the grid.\<close>

definition one_frame_board :: "int list list \<Rightarrow> board" where
  "one_frame_board grid = map (map (\<lambda>v. [v])) grid"

subsection \<open>DeepQLearningAgent: the model outputs\<close>









subsection \<open>DeepQLearningAgent: move\<close>











subsection \<open>DeepQLearningAgent: train_agent\<close>









subsection \<open>DeepQLearningAgent: get_action_proba\<close>






text \<open>The softmax of a row, for the policy-gradient loss below.\<close>

definition softmax :: "real list \<Rightarrow> real list" where
  "softmax xs = map (\<lambda>x. exp x / (\<Sum>y\<leftarrow>xs. exp y)) xs"

subsection \<open>PolicyGradientAgent: train_agent\<close>

text \<open>
  \<^verbatim>\<open>torch.nn.functional.log_softmax\<close> and the mean of a tensor, on the reals. (The
  softmax is \<open>softmax\<close> above.) The mean of no element is \<open>NaN\<close> in torch, which the
  reals do not have; the properties below are about samples that are not empty.
\<close>

definition log_softmax :: "real list \<Rightarrow> real list" where
  "log_softmax xs = map (\<lambda>x. x - ln (\<Sum>y\<leftarrow>xs. exp y)) xs"

definition mean :: "real list \<Rightarrow> real" where
  "mean xs = sum_list xs / real (length xs)"



text \<open>
  The tensors \<^verbatim>\<open>actions\<close> and \<^verbatim>\<open>rewards\<close> made from the sample of the buffer, with the
  shapes the buffer can give them: the actions as a vector of action indices, shape
  \<open>(N)\<close>, or as an array of rows, shape \<open>(N, k)\<close> (the rows of 0 and 1 that
  \<^verbatim>\<open>DeepQLearningAgent.train_agent\<close> reads from the same buffer); the rewards as a vector,
  shape \<open>(N)\<close>, or as a column, shape \<open>(N, 1)\<close>.
\<close>

datatype action_tensor = ActionIndices "int list" | ActionRows "int list list"

datatype reward_tensor = RewardVector "real list" | RewardColumn "real list"

fun reward_values :: "reward_tensor \<Rightarrow> real list" where
  "reward_values (RewardVector rs) = rs"
| "reward_values (RewardColumn rs) = rs"


text \<open>
  \<^verbatim>\<open>log_probs.gather(1, actions.unsqueeze(1)).squeeze(1)\<close>: the entry of each row of
  \<^verbatim>\<open>log_probs\<close> at the index of the action taken. \<^verbatim>\<open>gather\<close> raises \<^verbatim>\<open>RuntimeError\<close>
  when the index tensor has not the two dimensions of \<^verbatim>\<open>log_probs\<close> (an array of action
  rows has three after \<^verbatim>\<open>unsqueeze\<close>), when it has more rows than \<^verbatim>\<open>log_probs\<close>, and for
  an index that is no index of its row.
\<close>

definition gather_taken :: "real list list \<Rightarrow> action_tensor \<Rightarrow> error + real list" where
  "gather_taken log_probs actions =
    (case actions of
       ActionRows rows \<Rightarrow> Inl RuntimeError
     | ActionIndices indices \<Rightarrow>
         if length indices \<le> length log_probs \<and>
            list_all (\<lambda>(row, action). 0 \<le> action \<and> action < int (length row))
              (zip log_probs indices)
         then Inr (map (\<lambda>(row, action). row ! nat action) (zip log_probs indices))
         else Inl RuntimeError)"

text \<open>
  \<^verbatim>\<open>selected_log_probs * rewards\<close>, as torch broadcasts it: entry by entry for two vectors
  of one length, the one element against the other vector when a vector has one element,
  \<^verbatim>\<open>RuntimeError\<close> for other lengths; against a column of rewards the product is the
  array of all the products, one row per reward. The values are listed in row-major
  order.
\<close>

definition times_rewards :: "real list \<Rightarrow> reward_tensor \<Rightarrow> error + real list" where
  "times_rewards selected_log_probs rewards =
    (case rewards of
       RewardVector rs \<Rightarrow>
         if length selected_log_probs = length rs
         then Inr (map (\<lambda>(l, reward). l * reward) (zip selected_log_probs rs))
         else if length selected_log_probs = 1
         then Inr (map (\<lambda>reward. hd selected_log_probs * reward) rs)
         else if length rs = 1
         then Inr (map (\<lambda>l. l * hd rs) selected_log_probs)
         else Inl RuntimeError
     | RewardColumn rs \<Rightarrow>
         Inr (concat (map (\<lambda>reward. map (\<lambda>l. l * reward) selected_log_probs) rs)))"

text \<open>
  The loss of \<^verbatim>\<open>PolicyGradientAgent.train_agent\<close> from the logits of the model, the
  actions and the rewards: the lines from \<^verbatim>\<open>log_probs = ...\<close> to
  \<^verbatim>\<open>loss -= beta * entropy\<close>.
\<close>

definition pg_loss :: "real \<Rightarrow> real list list \<Rightarrow> action_tensor \<Rightarrow> reward_tensor \<Rightarrow> error + real" where
  "pg_loss beta logits actions rewards =
    (let log_probs = map log_softmax logits
     in case gather_taken log_probs actions of
          Inl e \<Rightarrow> Inl e
        | Inr selected_log_probs \<Rightarrow>
            (case times_rewards selected_log_probs rewards of
               Inl e \<Rightarrow> Inl e
             | Inr products \<Rightarrow>
                 (let loss = - mean products
                  in if beta > 0
                     then (let probs = map softmax logits;
                               entropy = - mean (map (\<lambda>(p, lp). \<Sum>(x, y)\<leftarrow>zip p lp. x * y)
                                                  (zip probs log_probs))
                           in Inr (loss - beta * entropy))
                     else Inr loss)))"









subsection \<open>BreadthFirstSearchAgent\<close>

text \<open>
  Reading and writing an array of two dimensions, \<^verbatim>\<open>a[i][j]\<close> and \<^verbatim>\<open>a[i][j] = v\<close>.
\<close>

definition np_get2 :: "'a list list \<Rightarrow> int \<Rightarrow> int \<Rightarrow> error + 'a" where
  "np_get2 a i j = (case np_get a i of Inl e \<Rightarrow> Inl e | Inr row \<Rightarrow> np_get row j)"

definition np_set :: "'a list \<Rightarrow> int \<Rightarrow> 'a \<Rightarrow> error + 'a list" where
  "np_set xs i v =
    (let n = int (length xs)
     in if - n \<le> i \<and> i < n then Inr (xs[nat (i mod n) := v]) else Inl IndexError)"

definition np_set2 :: "'a list list \<Rightarrow> int \<Rightarrow> int \<Rightarrow> 'a \<Rightarrow> error + 'a list list" where
  "np_set2 a i j v =
    (case np_get a i of
       Inl e \<Rightarrow> Inl e
     | Inr row \<Rightarrow> (case np_set row j v of Inl e \<Rightarrow> Inl e | Inr row' \<Rightarrow> np_set a i row'))"

text \<open>
  The entries of the \<^verbatim>\<open>distances\<close> array: \<^verbatim>\<open>np.inf\<close> or a count of steps, with the
  three operations the search applies to them: \<^verbatim>\<open>1 + d\<close>, \<^verbatim>\<open>d - 1\<close> and \<^verbatim>\<open>a > b\<close>.
\<close>

datatype dist = NpInf | Dist int

definition dist_succ :: "dist \<Rightarrow> dist" where
  "dist_succ d = (case d of NpInf \<Rightarrow> NpInf | Dist k \<Rightarrow> Dist (1 + k))"

definition dist_pred :: "dist \<Rightarrow> dist" where
  "dist_pred d = (case d of NpInf \<Rightarrow> NpInf | Dist k \<Rightarrow> Dist (k - 1))"

fun dist_gt :: "dist \<Rightarrow> dist \<Rightarrow> bool" where
  "dist_gt NpInf (Dist y) = True"
| "dist_gt (Dist x) (Dist y) = (x > y)"
| "dist_gt _ NpInf = False"

text \<open>
  \<^verbatim>\<open>BreadthFirstSearchAgent._get_neighbors\<close>: the four neighbours in the order of the
  source, each kept when the board holds a free cell, the food or the head there. The read
  \<^verbatim>\<open>board[new_row][new_col]\<close> is a numpy read: it wraps below zero and raises past the end.
\<close>

fun bfs_neighbors_loop ::
  "int \<Rightarrow> cell_values \<Rightarrow> int list list \<Rightarrow> int \<Rightarrow> int \<Rightarrow> (int \<times> int) list \<Rightarrow> error + int list" where
  "bfs_neighbors_loop n vals grid row col [] = Inr []"
| "bfs_neighbors_loop n vals grid row col ((delta_row, delta_col) # deltas) =
    (let new_row = row + delta_row; new_col = col + delta_col
     in case np_get2 grid new_row new_col of
          Inl e \<Rightarrow> Inl e
        | Inr v \<Rightarrow>
            (case bfs_neighbors_loop n vals grid row col deltas of
               Inl e \<Rightarrow> Inl e
             | Inr neighbors \<Rightarrow>
                 Inr (if v \<in> set [board_value vals, food_value vals, head_value vals]
                      then (new_row * n + new_col) # neighbors else neighbors)))"

definition bfs_get_neighbors :: "int \<Rightarrow> cell_values \<Rightarrow> int list list \<Rightarrow> int \<Rightarrow> error + int list" where
  "bfs_get_neighbors n vals grid point =
    (case point_to_row_col n point of (row, col) \<Rightarrow>
       bfs_neighbors_loop n vals grid row col [(- 1, 0), (1, 0), (0, 1), (0, - 1)])"

text \<open>The variables of the search loop of \<^verbatim>\<open>_get_shortest_path\<close>.\<close>

record bfs_state =
  points_to_search :: "int list"
  distances :: "dist list list"
  visited :: "int list list"
  found :: bool

text \<open>
  The \<^verbatim>\<open>for p in n\<close> loop of the search: the distance of the neighbour is lowered to one
  more than the distance of the current point, the loop breaks with \<^verbatim>\<open>found\<close> at the
  food, and a neighbour not yet visited is appended to the queue (the source marks the
  current point, not the neighbour, as visited).
\<close>

fun bfs_scan ::
  "int \<Rightarrow> cell_values \<Rightarrow> int list list \<Rightarrow> int \<Rightarrow> int \<Rightarrow> int list \<Rightarrow> bfs_state \<Rightarrow> error + bfs_state" where
  "bfs_scan n vals grid curr_row curr_col [] st = Inr st"
| "bfs_scan n vals grid curr_row curr_col (p # ps) st =
    (case point_to_row_col n p of (row, col) \<Rightarrow>
     case np_get2 (distances st) row col of Inl e \<Rightarrow> Inl e | Inr d \<Rightarrow>
     case np_get2 (distances st) curr_row curr_col of Inl e \<Rightarrow> Inl e | Inr d_curr \<Rightarrow>
     case (if dist_gt d (dist_succ d_curr)
           then np_set2 (distances st) row col (dist_succ d_curr) else Inr (distances st)) of
       Inl e \<Rightarrow> Inl e
     | Inr ds \<Rightarrow>
     case np_get2 grid row col of Inl e \<Rightarrow> Inl e | Inr v \<Rightarrow>
       if v = food_value vals then Inr (st\<lparr>distances := ds, found := True\<rparr>)
       else
         (case np_get2 (visited st) row col of Inl e \<Rightarrow> Inl e | Inr seen \<Rightarrow>
            if seen = 0
            then (case np_set2 (visited st) curr_row curr_col 1 of
                    Inl e \<Rightarrow> Inl e
                  | Inr vs \<Rightarrow>
                      bfs_scan n vals grid curr_row curr_col ps
                        (st\<lparr>points_to_search := points_to_search st @ [p],
                           distances := ds, visited := vs\<rparr>))
            else bfs_scan n vals grid curr_row curr_col ps (st\<lparr>distances := ds\<rparr>)))"

text \<open>
  The \<^verbatim>\<open>while(not found)\<close> loop. It ends when the food is found or the queue is empty; a
  run that does neither is the value \<open>None\<close>.
\<close>

partial_function (option) bfs_search ::
  "int \<Rightarrow> cell_values \<Rightarrow> int list list \<Rightarrow> bfs_state \<Rightarrow> (error + bfs_state) option" where
  "bfs_search n vals grid st =
    (if found st then Some (Inr st)
     else case points_to_search st of
            [] \<Rightarrow> Some (Inr st)
          | curr_point # rest \<Rightarrow>
              (case bfs_get_neighbors n vals grid curr_point of
                 Inl e \<Rightarrow> Some (Inl e)
               | Inr neighbors \<Rightarrow>
                   if length neighbors = 0
                   then bfs_search n vals grid (st\<lparr>points_to_search := rest\<rparr>)
                   else
                     (case bfs_scan n vals grid (fst (point_to_row_col n curr_point))
                             (snd (point_to_row_col n curr_point)) neighbors
                             (st\<lparr>points_to_search := rest\<rparr>) of
                        Inl e \<Rightarrow> Some (Inl e)
                      | Inr st' \<Rightarrow> bfs_search n vals grid st')))"

text \<open>
  The \<^verbatim>\<open>for p in n\<close> loop of the reconstruction: the first neighbour whose distance is
  not infinite and is one less than the distance of the current point.
\<close>

fun first_closer :: "int \<Rightarrow> dist list list \<Rightarrow> dist \<Rightarrow> int list \<Rightarrow> error + int option" where
  "first_closer n ds d_curr [] = Inr None"
| "first_closer n ds d_curr (p # ps) =
    (case point_to_row_col n p of (row, col) \<Rightarrow>
     case np_get2 ds row col of
       Inl e \<Rightarrow> Inl e
     | Inr d \<Rightarrow> if d \<noteq> NpInf \<and> d = dist_pred d_curr then Inr (Some p)
                else first_closer n ds d_curr ps)"

text \<open>
  The \<^verbatim>\<open>while(1)\<close> loop that walks back from the food. When no neighbour is one step
  closer the source repeats the same pass for ever.
\<close>

partial_function (option) walk_back ::
  "int \<Rightarrow> cell_values \<Rightarrow> int list list \<Rightarrow> dist list list \<Rightarrow> int \<Rightarrow> int list \<Rightarrow>
   (error + int list) option" where
  "walk_back n vals grid ds curr_point path =
    (case np_get2 ds (fst (point_to_row_col n curr_point)) (snd (point_to_row_col n curr_point)) of
       Inl e \<Rightarrow> Some (Inl e)
     | Inr d \<Rightarrow>
         if d = NpInf then Some (Inr [])
         else if d = Dist 0 then Some (Inr path)
         else
           (case bfs_get_neighbors n vals grid curr_point of
              Inl e \<Rightarrow> Some (Inl e)
            | Inr neighbors \<Rightarrow>
                (case first_closer n ds d neighbors of
                   Inl e \<Rightarrow> Some (Inl e)
                 | Inr None \<Rightarrow> walk_back n vals grid ds curr_point path
                 | Inr (Some p) \<Rightarrow> walk_back n vals grid ds p (path @ [p]))))"

text \<open>
  The variables of \<^verbatim>\<open>_get_shortest_path\<close> before the search loop: the queue holds the
  head, \<^verbatim>\<open>distances\<close> is \<^verbatim>\<open>np.inf\<close> but 0 at the head, \<^verbatim>\<open>visited\<close> is 0 but 1 at the
  head (\<open>n\<close> is \<^verbatim>\<open>self._board_size\<close>).
\<close>

definition bfs_initial_state :: "int \<Rightarrow> int \<Rightarrow> error + bfs_state" where
  "bfs_initial_state n head =
    (let row = fst (point_to_row_col n head); col = snd (point_to_row_col n head)
     in case np_set2 (replicate (nat n) (replicate (nat n) NpInf)) row col (Dist 0) of
          Inl e \<Rightarrow> Inl e
        | Inr ds \<Rightarrow>
            (case np_set2 (replicate (nat n) (replicate (nat n) 0)) row col 1 of
               Inl e \<Rightarrow> Inl e
             | Inr vs \<Rightarrow>
                 Inr \<lparr>points_to_search = [head], distances = ds, visited = vs,
                      found = False\<rparr>))"

text \<open>
  \<^verbatim>\<open>_get_shortest_path\<close> on one board of the agent's input shape (\<open>f\<close> is the number of
  frames): the head, the search, and the walk back from the food.
\<close>

definition get_shortest_path ::
  "int \<Rightarrow> nat \<Rightarrow> cell_values \<Rightarrow> board \<Rightarrow> (error + int list) option" where
  "get_shortest_path n f vals b =
    (if \<not> has_shape n f b \<or> f = 0 then Some (Inl ValueError)
     else
       (let grid = frame b 0;
            head = find_value grid (head_value vals)
        in case bfs_initial_state n head of
             Inl e \<Rightarrow> Some (Inl e)
           | Inr st0 \<Rightarrow>
               (case bfs_search n vals grid st0 of
                  None \<Rightarrow> None
                | Some (Inl e) \<Rightarrow> Some (Inl e)
                | Some (Inr st) \<Rightarrow>
                    (let curr_point = find_value grid (food_value vals)
                     in walk_back n vals grid (distances st) curr_point [curr_point]))))"

text \<open>
  One pass of the loop of \<^verbatim>\<open>BreadthFirstSearchAgent.move\<close>: the action for one board. The
  previous head is computed from frame 1 and not used afterwards; a board of one frame has
  no frame 1.
\<close>

definition snake_cells :: "cell_values \<Rightarrow> int list list \<Rightarrow> bool list list" where
  "snake_cells vals grid = map (map (\<lambda>x. x = head_value vals \<or> x = snake_value vals)) grid"

definition bfs_action :: "int \<Rightarrow> nat \<Rightarrow> cell_values \<Rightarrow> board \<Rightarrow> (error + int) option" where
  "bfs_action n f vals b =
    (case get_shortest_path n f vals b of
       None \<Rightarrow> None
     | Some (Inl e) \<Rightarrow> Some (Inl e)
     | Some (Inr path) \<Rightarrow>
         if length path = 0 then Some (Inr 1)
         else
           (case np_get path (- 2) of
              Inl e \<Rightarrow> Some (Inl e)
            | Inr next_head \<Rightarrow>
                if f < 2 then Some (Inl IndexError)
                else
                  (let curr_head = find_value (frame b 0) (head_value vals);
                       prev_head =
                         (if snake_cells vals (frame b 0) = snake_cells vals (frame b 1)
                          then curr_head - 1
                          else find_value (frame b 1) (head_value vals));
                       dx = snd (point_to_row_col n next_head) - snd (point_to_row_col n curr_head);
                       dy = - fst (point_to_row_col n next_head) + fst (point_to_row_col n curr_head)
                   in Some (Inr (if dx = 1 \<and> dy = 0 then 0
                                 else if dx = 0 \<and> dy = 1 then 1
                                 else if dx = - 1 \<and> dy = 0 then 2
                                 else if dx = 0 \<and> dy = - 1 then 3
                                 else 0)))))"

text \<open>\<^verbatim>\<open>BreadthFirstSearchAgent.move\<close> on a batch: one action per board, in order.\<close>

fun bfs_move :: "int \<Rightarrow> nat \<Rightarrow> cell_values \<Rightarrow> board list \<Rightarrow> (error + int list) option" where
  "bfs_move n f vals [] = Some (Inr [])"
| "bfs_move n f vals (b # bs) =
    (case bfs_action n f vals b of
       None \<Rightarrow> None
     | Some (Inl e) \<Rightarrow> Some (Inl e)
     | Some (Inr action) \<Rightarrow>
         (case bfs_move n f vals bs of
            None \<Rightarrow> None
          | Some (Inl e) \<Rightarrow> Some (Inl e)
          | Some (Inr actions) \<Rightarrow> Some (Inr (action # actions))))"

text \<open>
  The two loops with a bound on the number of passes, to run them on given boards: a run
  within the bound is a run of the loop.
\<close>

fun bfs_search_fuel ::
  "nat \<Rightarrow> int \<Rightarrow> cell_values \<Rightarrow> int list list \<Rightarrow> bfs_state \<Rightarrow> (error + bfs_state) option" where
  "bfs_search_fuel 0 n vals grid st = None"
| "bfs_search_fuel (Suc k) n vals grid st =
    (if found st then Some (Inr st)
     else case points_to_search st of
            [] \<Rightarrow> Some (Inr st)
          | curr_point # rest \<Rightarrow>
              (case bfs_get_neighbors n vals grid curr_point of
                 Inl e \<Rightarrow> Some (Inl e)
               | Inr neighbors \<Rightarrow>
                   if length neighbors = 0
                   then bfs_search_fuel k n vals grid (st\<lparr>points_to_search := rest\<rparr>)
                   else
                     (case bfs_scan n vals grid (fst (point_to_row_col n curr_point))
                             (snd (point_to_row_col n curr_point)) neighbors
                             (st\<lparr>points_to_search := rest\<rparr>) of
                        Inl e \<Rightarrow> Some (Inl e)
                      | Inr st' \<Rightarrow> bfs_search_fuel k n vals grid st')))"

fun walk_back_fuel ::
  "nat \<Rightarrow> int \<Rightarrow> cell_values \<Rightarrow> int list list \<Rightarrow> dist list list \<Rightarrow> int \<Rightarrow> int list \<Rightarrow>
   (error + int list) option" where
  "walk_back_fuel 0 n vals grid ds curr_point path = None"
| "walk_back_fuel (Suc k) n vals grid ds curr_point path =
    (case np_get2 ds (fst (point_to_row_col n curr_point)) (snd (point_to_row_col n curr_point)) of
       Inl e \<Rightarrow> Some (Inl e)
     | Inr d \<Rightarrow>
         if d = NpInf then Some (Inr [])
         else if d = Dist 0 then Some (Inr path)
         else
           (case bfs_get_neighbors n vals grid curr_point of
              Inl e \<Rightarrow> Some (Inl e)
            | Inr neighbors \<Rightarrow>
                (case first_closer n ds d neighbors of
                   Inl e \<Rightarrow> Some (Inl e)
                 | Inr None \<Rightarrow> walk_back_fuel k n vals grid ds curr_point path
                 | Inr (Some p) \<Rightarrow> walk_back_fuel k n vals grid ds p (path @ [p]))))"

definition get_shortest_path_fuel ::
  "nat \<Rightarrow> int \<Rightarrow> nat \<Rightarrow> cell_values \<Rightarrow> board \<Rightarrow> (error + int list) option" where
  "get_shortest_path_fuel k n f vals b =
    (if \<not> has_shape n f b \<or> f = 0 then Some (Inl ValueError)
     else
       (let grid = frame b 0;
            head = find_value grid (head_value vals)
        in case bfs_initial_state n head of
             Inl e \<Rightarrow> Some (Inl e)
           | Inr st0 \<Rightarrow>
               (case bfs_search_fuel k n vals grid st0 of
                  None \<Rightarrow> None
                | Some (Inl e) \<Rightarrow> Some (Inl e)
                | Some (Inr st) \<Rightarrow>
                    (let curr_point = find_value grid (food_value vals)
                     in walk_back_fuel k n vals grid (distances st) curr_point [curr_point]))))"

text \<open>
  Proof devices for the search: an array of \<open>n\<close> rows of \<open>n\<close> entries, and the invariant of
  the search loop that, as long as the food is not found, every cell with a finite
  distance is the head's cell or holds no food.
\<close>

definition square :: "int \<Rightarrow> 'a list list \<Rightarrow> bool" where
  "square n a \<longleftrightarrow> int (length a) = n \<and> (\<forall>row\<in>set a. int (length row) = n)"

definition food_unreached ::
  "int \<Rightarrow> int list list \<Rightarrow> cell_values \<Rightarrow> nat \<times> nat \<Rightarrow> bfs_state \<Rightarrow> bool" where
  "food_unreached n grid vals head_cell st \<longleftrightarrow>
     square n (distances st) \<and>
     (\<not> found st \<longrightarrow>
        (\<forall>r c. r < nat n \<longrightarrow> c < nat n \<longrightarrow> distances st ! r ! c \<noteq> NpInf \<longrightarrow>
           (r, c) = head_cell \<or> grid ! r ! c \<noteq> food_value vals))"

definition in_range :: "int \<Rightarrow> int \<Rightarrow> bool" where
  "in_range n i \<longleftrightarrow> - n \<le> i \<and> i < n"

text \<open>A board of side 6 whose food, at (4,4), is enclosed by body cells and the border.\<close>

definition enclosed_grid :: "int list list" where
  "enclosed_grid =
    [[4, 4, 4, 4, 4, 4],
     [4, 2, 0, 0, 0, 4],
     [4, 0, 0, 0, 0, 4],
     [4, 0, 0, 1, 1, 4],
     [4, 0, 0, 1, 3, 4],
     [4, 4, 4, 4, 4, 4]]"

subsection \<open>BreadthFirstSearchAgent: the open board of the path property\<close>

text \<open>
  The boards of the open-board property: a border code on the outer rows and columns, the
  head at (1,1), the food at (1,3) and free cells elsewhere.
\<close>

definition bordered_open_grid :: "int \<Rightarrow> cell_values \<Rightarrow> int \<Rightarrow> int list list \<Rightarrow> bool" where
  "bordered_open_grid n vals border grid \<longleftrightarrow>
     int (length grid) = n \<and> (\<forall>row\<in>set grid. int (length row) = n) \<and>
     (\<forall>r\<in>set [0..<nat n]. \<forall>c\<in>set [0..<nat n].
        grid ! r ! c =
          (if r = 0 \<or> int r = n - 1 \<or> c = 0 \<or> int c = n - 1 then border
           else if r = 1 \<and> c = 1 then head_value vals
           else if r = 1 \<and> c = 3 then food_value vals
           else board_value vals))"

text \<open>Proof device: the array \<open>a\<close> with the entry at row \<open>r\<close>, column \<open>c\<close> replaced.\<close>

definition upd :: "'a list list \<Rightarrow> nat \<Rightarrow> nat \<Rightarrow> 'a \<Rightarrow> 'a list list" where
  "upd a r c v = a[r := (a ! r)[c := v]]"

section \<open>Properties\<close>

subsection \<open>Coordinate conversions\<close>

text \<open>
  C10: the coordinate conversions are mutually inverse. For every flat index \<open>p\<close> with
  \<open>0 \<le> p < board_size\<^sup>2\<close>, converting to (row, col) and back returns \<open>p\<close>; for every
  row and column in \<open>0 ..< board_size\<close>, converting to a point and back returns the pair.
\<close>

theorem coordinate_conversions_inverse:
  "(0 \<le> p \<and> p < n ^ 2 \<longrightarrow>
      (case point_to_row_col n p of (row, col) \<Rightarrow> row_col_to_point n row col) = p) \<and>
   (0 \<le> row \<and> row < n \<and> 0 \<le> col \<and> col < n \<longrightarrow>
      point_to_row_col n (row_col_to_point n row col) = (row, col))"
  by (simp add: point_to_row_col_def row_col_to_point_def)

theorem coordinate_conversions_inverse_witness:
  "(0::int) \<le> 37 \<and> (37::int) < 10 ^ 2 \<and>
   (case point_to_row_col 10 37 of (row, col) \<Rightarrow> row_col_to_point 10 row col) = 37 \<and>
   (0::int) \<le> 3 \<and> (3::int) < 10 \<and> (0::int) \<le> 7 \<and> (7::int) < 10 \<and>
   point_to_row_col 10 (row_col_to_point 10 3 7) = (3, 7)"
  using coordinate_conversions_inverse [of 37 10 3 7] by simp

subsection \<open>Construction of the Hamiltonian agent\<close>

text \<open>
  C9: constructing a HamiltonianCycleAgent with an odd board side length fails with the
  assertion's error and produces no agent; whenever the construction produces an agent,
  the side length is even.
\<close>

theorem init_requires_even_board:
  "(odd n \<longrightarrow> HamiltonianCycleAgent_init n frames = Inl AssertionError) \<and>
   (\<forall>a. HamiltonianCycleAgent_init n frames = Inr a \<longrightarrow> even n)"
  by (auto simp: HamiltonianCycleAgent_init_def odd_iff_mod_2_eq_one even_iff_mod_2_eq_zero
      split: if_splits)

theorem init_requires_even_board_witness:
  "odd (7::int) \<and> HamiltonianCycleAgent_init 7 4 = Inl AssertionError \<and>
   (\<exists>a. HamiltonianCycleAgent_init 8 4 = Inr a) \<and> even (8::int)"
  using init_requires_even_board [of 7 4] init_requires_even_board [of 8 4]
  by (simp add: HamiltonianCycleAgent_init_def)

subsection \<open>The serpentine sweep is a Hamiltonian cycle of the interior\<close>

lemma sweep_step: "cycle_step n index (sp_before n index) = sweep n index"
  by (cases index) (simp_all add: sp_before_def)

lemma cycle_loop_length: "length (cycle_loop n index sp cyc) = length cyc"
proof (induction n index sp cyc rule: cycle_loop.induct)
  case (1 n index sp cyc)
  show ?case
  proof (cases "index < length cyc")
    case True
    with 1 show ?thesis by (subst cycle_loop.simps) (simp add: Let_def)
  next
    case False
    then show ?thesis by (subst cycle_loop.simps) simp
  qed
qed

lemma cycle_loop_nth:
  "sp = sp_before n index \<Longrightarrow> \<forall>k<index. k < length cyc \<longrightarrow> cyc ! k = sweep n k \<Longrightarrow>
   k < length cyc \<Longrightarrow> cycle_loop n index sp cyc ! k = sweep n k"
proof (induction n index sp cyc rule: cycle_loop.induct)
  case (1 n index sp cyc)
  show ?case
  proof (cases "index < length cyc")
    case True
    have step: "cycle_step n index sp = sweep n index"
      using 1(2) sweep_step by simp
    have before: "sweep n index = sp_before n (index + 1)"
      by (simp add: sp_before_def)
    have "cycle_loop n (index + 1) (sweep n index) (cyc[index := sweep n index]) ! k = sweep n k"
    proof (rule 1(1) [OF True, of "sweep n index"])
      show "sweep n index = cycle_step n index sp" using step by simp
      show "sweep n index = sp_before n (index + 1)" by (rule before)
      show "\<forall>j<index + 1. j < length (cyc[index := sweep n index]) \<longrightarrow>
              cyc[index := sweep n index] ! j = sweep n j"
        using 1(3) True by (auto simp: nth_list_update less_Suc_eq)
      show "k < length (cyc[index := sweep n index])" using 1(4) by simp
    qed
    with True step show ?thesis by (subst cycle_loop.simps) (simp add: Let_def)
  next
    case False
    with 1(3,4) show ?thesis by (subst cycle_loop.simps) simp
  qed
qed

lemma get_cycle_square_eq:
  "get_cycle_square n = map (sweep n) [0..<nat ((n - 2) ^ 2)]"
proof (rule nth_equalityI)
  show "length (get_cycle_square n) = length (map (sweep n) [0..<nat ((n - 2) ^ 2)])"
    by (simp add: get_cycle_square_def cycle_loop_length)
next
  fix i assume "i < length (get_cycle_square n)"
  then have i: "i < nat ((n - 2) ^ 2)"
    by (simp add: get_cycle_square_def cycle_loop_length)
  have "cycle_loop n 0 (1 * n + 1) (replicate (nat ((n - 2) ^ 2)) 0) ! i = sweep n i"
    by (rule cycle_loop_nth) (use i in \<open>simp_all add: sp_before_def\<close>)
  with i show "get_cycle_square n ! i = map (sweep n) [0..<nat ((n - 2) ^ 2)] ! i"
    by (simp add: get_cycle_square_def)
qed

lemma div_mod_cell:
  fixes n :: int
  assumes "0 \<le> c" "c < n"
  shows "(r * n + c) div n = r" "(r * n + c) mod n = c"
  using assms by (simp_all add: div_pos_pos_trivial)

lemma cycle_step_rc:
  assumes "1 \<le> c" "c \<le> n - 2"
  shows "cycle_step n index (r * n + c) = (case step_rc n index (r, c) of (r', c') \<Rightarrow> r' * n + c')"
proof -
  have c: "0 \<le> c" "c < n" "0 \<le> c + 1" "c + 1 < n" using assms by auto
  have a: "(r * n + c) div n = r" "(r * n + c) mod n = c"
    by (rule div_mod_cell [OF c(1,2)])+
  have b: "((r + 1) * n + c) div n = r + 1" "((r + 1) * n + c) mod n = c"
    by (rule div_mod_cell [OF c(1,2)])+
  have d: "((r - 1) * n + c) div n = r - 1" "((r - 1) * n + c) mod n = c"
    by (rule div_mod_cell [OF c(1,2)])+
  show ?thesis
    unfolding cycle_step_def step_rc_def Let_def a b d by simp
qed

lemma colbase_next: "(c + 1 - 2) * (m - 1) = (c - 2) * (m - 1) + (m - 1)" for c m :: int
  by (simp add: algebra_simps)

lemma colbase_bounds:
  fixes c m :: int
  assumes "2 \<le> c" "c \<le> m"
  shows "0 \<le> (c - 2) * (m - 1)" "(c - 2) * (m - 1) + (m - 1) \<le> (m - 1) * (m - 1)"
proof -
  show "0 \<le> (c - 2) * (m - 1)" using assms by simp
  have "(c - 1) * (m - 1) \<le> (m - 1) * (m - 1)"
    using assms by (intro mult_right_mono) auto
  then show "(c - 2) * (m - 1) + (m - 1) \<le> (m - 1) * (m - 1)"
    by (simp add: algebra_simps)
qed

lemma total_cells: "m ^ 2 = m + (m - 1) * (m - 1) + (m - 1)" for m :: int
  by (simp add: power2_eq_square algebra_simps)

lemma rank_col1: "rank m r 1 = r - 1"
  by (simp add: rank_def)

lemma rank_top: "c \<noteq> 1 \<Longrightarrow> rank m 1 c = m + (m - 1) * (m - 1) + (m - c)"
  by (simp add: rank_def)

lemma rank_even:
  "c \<noteq> 1 \<Longrightarrow> r \<noteq> 1 \<Longrightarrow> even c \<Longrightarrow> rank m r c = m + (c - 2) * (m - 1) + (m - r)"
  by (simp add: rank_def)

lemma rank_odd:
  "c \<noteq> 1 \<Longrightarrow> r \<noteq> 1 \<Longrightarrow> odd c \<Longrightarrow> rank m r c = m + (c - 2) * (m - 1) + (r - 2)"
  by (simp add: rank_def)

lemma step_rc_branches:
  "r = 2 \<and> c = n - 2 \<Longrightarrow> step_rc n (Suc i) (r, c) = (r - 1, c)"
  "\<not> (r = 2 \<and> c = n - 2) \<Longrightarrow> i \<noteq> 0 \<and> r = 1 \<Longrightarrow> step_rc n (Suc i) (r, c) = (r, c - 1)"
  "\<not> (r = 2 \<and> c = n - 2) \<Longrightarrow> \<not> (i \<noteq> 0 \<and> r = 1) \<Longrightarrow> odd c \<Longrightarrow> r = n - 2 \<Longrightarrow>
     step_rc n (Suc i) (r, c) = (r, c + 1)"
  "\<not> (r = 2 \<and> c = n - 2) \<Longrightarrow> \<not> (i \<noteq> 0 \<and> r = 1) \<Longrightarrow> odd c \<Longrightarrow> r \<noteq> n - 2 \<Longrightarrow>
     step_rc n (Suc i) (r, c) = (r + 1, c)"
  "\<not> (r = 2 \<and> c = n - 2) \<Longrightarrow> \<not> (i \<noteq> 0 \<and> r = 1) \<Longrightarrow> even c \<Longrightarrow> r = 2 \<Longrightarrow>
     step_rc n (Suc i) (r, c) = (r, c + 1)"
  "\<not> (r = 2 \<and> c = n - 2) \<Longrightarrow> \<not> (i \<noteq> 0 \<and> r = 1) \<Longrightarrow> even c \<Longrightarrow> r \<noteq> 2 \<Longrightarrow>
     step_rc n (Suc i) (r, c) = (r - 1, c)"
  by (auto simp: step_rc_def odd_iff_mod_2_eq_one)

lemma step_rc_rank:
  assumes n: "even n" "4 \<le> n"
    and rc: "interior_rc n r c"
    and rk: "rank (n - 2) r c = int i"
    and notlast: "int i + 1 < (n - 2) ^ 2"
    and st: "step_rc n (Suc i) (r, c) = (r', c')"
  shows "interior_rc n r' c' \<and> rank (n - 2) r' c' = int i + 1 \<and> \<bar>r' - r\<bar> + \<bar>c' - c\<bar> = 1"
proof -
  define m where "m = n - 2"
  have m: "even m" "2 \<le> m" "n - 1 = m + 1" "n - 2 = m"
    using n by (simp_all add: m_def)
  have r: "1 \<le> r" "r \<le> m" and c: "1 \<le> c" "c \<le> m"
    using rc by (simp_all add: interior_rc_def m_def)
  have "1 * 1 \<le> (m - 1) * (m - 1)"
    using m(2) by (intro mult_mono) auto
  then have X: "1 \<le> (m - 1) * (m - 1)" by simp
  have B0: "2 \<le> c \<Longrightarrow> 0 \<le> (c - 2) * (m - 1)"
    and B1: "2 \<le> c \<Longrightarrow> (c - 2) * (m - 1) + (m - 1) \<le> (m - 1) * (m - 1)"
    using colbase_bounds [of c m] c by auto
  have Bm: "c = m \<Longrightarrow> (c - 2) * (m - 1) + (m - 1) = (m - 1) * (m - 1)"
    by (simp add: algebra_simps)
  have Bn: "(c + 1 - 2) * (m - 1) = (c - 2) * (m - 1) + (m - 1)"
    by (rule colbase_next)
  have last: "int i + 1 < m + (m - 1) * (m - 1) + (m - 1)"
    using notlast total_cells [of m] unfolding m(4) by simp
  have rki: "rank m r c = int i" using rk m(4) by simp
  have par: "c mod 2 = 1 \<longleftrightarrow> odd c" by (simp add: odd_iff_mod_2_eq_one)
  have oddm: "odd c \<Longrightarrow> c + 1 \<le> m"
    using c(2) m(1) by (cases "c = m") auto
  have top: "r = 1 \<Longrightarrow> c = 1 \<or> i \<noteq> 0"
  proof (rule disjCI)
    assume "r = 1" "\<not> i \<noteq> 0" 
    show "c = 1"
    proof (rule ccontr)
      assume "c \<noteq> 1"
      from rank_top [OF this, of m] rki \<open>r = 1\<close> \<open>\<not> i \<noteq> 0\<close> X c show False by simp
    qed
  qed
  have goal: "interior_rc n r' c' \<longleftrightarrow> 1 \<le> r' \<and> r' \<le> m \<and> 1 \<le> c' \<and> c' \<le> m"
    by (simp add: interior_rc_def m(4))
  consider (A) "r = 2" "c = m"
    | (B) "\<not> (r = 2 \<and> c = m)" "i \<noteq> 0" "r = 1"
    | (C1) "\<not> (r = 2 \<and> c = m)" "\<not> (i \<noteq> 0 \<and> r = 1)" "odd c" "r = m"
    | (C2) "\<not> (r = 2 \<and> c = m)" "\<not> (i \<noteq> 0 \<and> r = 1)" "odd c" "r \<noteq> m"
    | (D1) "\<not> (r = 2 \<and> c = m)" "\<not> (i \<noteq> 0 \<and> r = 1)" "even c" "r = 2"
    | (D2) "\<not> (r = 2 \<and> c = m)" "\<not> (i \<noteq> 0 \<and> r = 1)" "even c" "r \<noteq> 2"
    by blast
  then show ?thesis
  proof cases
    case A
    have new: "r' = 1" "c' = m" using st step_rc_branches(1) [of r c n i] A m(4) by simp_all
    have "rank m 2 m = m + (m - 2) * (m - 1) + (m - 2)"
      using m by (intro rank_even) auto
    moreover have "rank m 1 m = m + (m - 1) * (m - 1) + (m - m)"
      using m by (intro rank_top) auto
    ultimately have "rank m r' c' = int i + 1"
      using rki A Bm new by simp
    then show ?thesis using new A m unfolding goal m(4) by simp
  next
    case B
    have new: "r' = 1" "c' = c - 1" using st step_rc_branches(2) [of r c n i] B m(4) by simp_all
    have c1: "c \<noteq> 1"
      using rki B rank_col1 [of m r] by auto
    have old: "int i = m + (m - 1) * (m - 1) + (m - c)"
      using rank_top [OF c1, of m] rki B by simp
    have c2: "c \<noteq> 2" using old last by auto
    then have "rank m 1 (c - 1) = m + (m - 1) * (m - 1) + (m - (c - 1))"
      by (intro rank_top) auto
    then have "rank m r' c' = int i + 1" using old new by simp
    then show ?thesis using new B c c1 c2 unfolding goal m(4) by simp
  next
    case C1
    have new: "r' = m" "c' = c + 1" using st step_rc_branches(3) [of r c n i] C1 m(4) by simp_all
    have "rank m m (c + 1) = m + (c + 1 - 2) * (m - 1) + (m - m)"
      using C1 m c by (intro rank_even) auto
    then have tgt: "rank m r' c' = m + (c - 2) * (m - 1) + (m - 1)"
      using new Bn by simp
    have "int i + 1 = m + (c - 2) * (m - 1) + (m - 1)"
    proof (cases "c = 1")
      case True
      then show ?thesis using rki rank_col1 [of m r] C1 by simp
    next
      case False
      then have "rank m r c = m + (c - 2) * (m - 1) + (r - 2)"
        using C1 m by (intro rank_odd) auto
      then show ?thesis using rki C1 by simp
    qed
    with tgt have "rank m r' c' = int i + 1" by simp
    then show ?thesis using new C1 c oddm m unfolding goal m(4) by simp
  next
    case C2
    have new: "r' = r + 1" "c' = c" using st step_rc_branches(4) [of r c n i] C2 m(4) by simp_all
    have "rank m r' c' = int i + 1"
    proof (cases "c = 1")
      case True
      then show ?thesis using rki rank_col1 [of m] new by simp
    next
      case False
      then have r1: "r \<noteq> 1" using top C2 by auto
      then have "rank m r c = m + (c - 2) * (m - 1) + (r - 2)"
        using False C2 by (intro rank_odd) auto
      moreover have "rank m (r + 1) c = m + (c - 2) * (m - 1) + (r + 1 - 2)"
        using False C2 r by (intro rank_odd) auto
      ultimately show ?thesis using rki new by simp
    qed
    then show ?thesis using new C2 r c unfolding goal m(4) by simp
  next
    case D1
    have c1: "c \<noteq> 1" using D1 by auto
    have cm: "c + 1 \<le> m" using D1 c by auto
    have new: "r' = 2" "c' = c + 1" using st step_rc_branches(5) [of r c n i] D1 m(4) by simp_all
    have "rank m 2 c = m + (c - 2) * (m - 1) + (m - 2)"
      using c1 D1 by (intro rank_even) auto
    moreover have "rank m 2 (c + 1) = m + (c + 1 - 2) * (m - 1) + (2 - 2)"
      using c D1 by (intro rank_odd) auto
    ultimately have "rank m r' c' = int i + 1" using rki new D1 Bn by simp
    then show ?thesis using new D1 c cm unfolding goal m(4) by simp
  next
    case D2
    have c1: "c \<noteq> 1" using D2 by auto
    have r1: "r \<noteq> 1" using top D2 c1 by auto
    have new: "r' = r - 1" "c' = c" using st step_rc_branches(6) [of r c n i] D2 m(4) by simp_all
    have "rank m r c = m + (c - 2) * (m - 1) + (m - r)"
      using c1 r1 D2 by (intro rank_even) auto
    moreover have "rank m (r - 1) c = m + (c - 2) * (m - 1) + (m - (r - 1))"
      using c1 r1 D2 by (intro rank_even) auto
    ultimately have "rank m r' c' = int i + 1" using rki new by simp
    then show ?thesis using new D2 r r1 c unfolding goal m(4) by simp
  qed
qed

lemma sweep_0: "sweep n 0 = 1 * n + 1"
  by (simp add: cycle_step_def)

lemma on_cycle_0:
  assumes "4 \<le> n"
  shows "on_cycle n 0 (sweep n 0)"
proof -
  have "(1 * n + 1) div n = 1" "(1 * n + 1) mod n = 1"
    using assms by (intro div_mod_cell; simp)+
  then show ?thesis
    using assms unfolding sweep_0 on_cycle_def by (simp add: interior_rc_def rank_col1)
qed

lemma on_cycle_step:
  assumes n: "even n" "4 \<le> n"
    and inv: "on_cycle n i sp"
    and notlast: "int i + 1 < (n - 2) ^ 2"
  shows "on_cycle n (Suc i) (cycle_step n (Suc i) sp) \<and>
         manhattan n sp (cycle_step n (Suc i) sp) = 1"
proof -
  define r c where "r = sp div n" and "c = sp mod n"
  have sp: "sp = r * n + c" by (simp add: r_def c_def)
  have rc: "interior_rc n r c" and rk: "rank (n - 2) r c = int i"
    using inv by (simp_all add: on_cycle_def r_def c_def)
  obtain r' c' where st: "step_rc n (Suc i) (r, c) = (r', c')"
    by (cases "step_rc n (Suc i) (r, c)") auto
  have new: "interior_rc n r' c'" "rank (n - 2) r' c' = int i + 1" "\<bar>r' - r\<bar> + \<bar>c' - c\<bar> = 1"
    using step_rc_rank [OF n rc rk notlast st] by simp_all
  have c: "1 \<le> c" "c \<le> n - 2" using rc by (simp_all add: interior_rc_def)
  have c': "0 \<le> c'" "c' < n" using new(1) by (simp_all add: interior_rc_def)
  have eq: "cycle_step n (Suc i) sp = r' * n + c'"
    unfolding sp using cycle_step_rc [OF c, of "Suc i" r] st by simp
  have dm: "(r' * n + c') div n = r'" "(r' * n + c') mod n = c'"
    by (rule div_mod_cell [OF c'])+
  have "on_cycle n (Suc i) (r' * n + c')"
    unfolding on_cycle_def dm using new by simp
  moreover have "manhattan n sp (r' * n + c') = 1"
    unfolding manhattan_def point_to_row_col_def using dm new(3)
    by (simp add: r_def c_def abs_minus_commute)
  ultimately show ?thesis unfolding eq by simp
qed

lemma sweep_on_cycle:
  assumes "even n" "4 \<le> n"
  shows "int i < (n - 2) ^ 2 \<Longrightarrow> on_cycle n i (sweep n i)"
proof (induction i)
  case 0
  show ?case using assms(2) by (rule on_cycle_0)
next
  case (Suc i)
  then have "on_cycle n i (sweep n i)" and "int i + 1 < (n - 2) ^ 2" by simp_all
  from on_cycle_step [OF assms this] show ?case by simp
qed

lemma sweep_adjacent:
  assumes "even n" "4 \<le> n" "int (Suc i) < (n - 2) ^ 2"
  shows "manhattan n (sweep n i) (sweep n (Suc i)) = 1"
proof -
  have "on_cycle n i (sweep n i)" and "int i + 1 < (n - 2) ^ 2"
    using sweep_on_cycle [OF assms(1,2), of i] assms(3) by simp_all
  from on_cycle_step [OF assms(1,2) this] show ?thesis by simp
qed

lemma sweep_inj:
  assumes "even n" "4 \<le> n" "int i < (n - 2) ^ 2" "int j < (n - 2) ^ 2"
    and "sweep n i = sweep n j"
  shows "i = j"
  using sweep_on_cycle [OF assms(1,2,3)] sweep_on_cycle [OF assms(1,2,4)] assms(5)
  by (simp add: on_cycle_def)

lemma on_cycle_last:
  assumes n: "even n" "4 \<le> n"
    and inv: "on_cycle n i sp" and last: "int i + 1 = (n - 2) ^ 2"
  shows "sp = 1 * n + 2"
proof -
  define m where "m = n - 2"
  define r c where "r = sp div n" and "c = sp mod n"
  have sp: "sp = r * n + c" by (simp add: r_def c_def)
  have m: "even m" "2 \<le> m" using n by (simp_all add: m_def)
  have rc: "1 \<le> r" "r \<le> m" "1 \<le> c" "c \<le> m" and rk: "rank m r c = int i"
    using inv by (simp_all add: on_cycle_def r_def c_def interior_rc_def m_def)
  have "1 * 1 \<le> (m - 1) * (m - 1)"
    using m(2) by (intro mult_mono) auto
  then have X: "1 \<le> (m - 1) * (m - 1)" by simp
  have i: "int i + 1 = m + (m - 1) * (m - 1) + (m - 1)"
    using last total_cells [of m] by (simp add: m_def)
  have c1: "c \<noteq> 1"
  proof
    assume "c = 1"
    then have "int i = r - 1" using rk rank_col1 [of m r] by simp
    with i rc X m show False by simp
  qed
  have r1: "r = 1"
  proof (rule ccontr)
    assume r: "r \<noteq> 1"
    have c2: "2 \<le> c" using c1 rc by simp
    have le: "rank m r c \<le> m + (c - 2) * (m - 1) + (m - 2)"
      using rank_even [OF c1 r, of m] rank_odd [OF c1 r, of m] rc r by (cases "even c") auto
    from colbase_bounds(2) [OF c2 rc(4)] le rk i m show False by simp
  qed
  have "int i = m + (m - 1) * (m - 1) + (m - c)"
    using rank_top [OF c1, of m] rk r1 by simp
  with i have "c = 2" by simp
  with r1 sp show ?thesis by simp
qed

lemma finite_interior_cells: "finite (interior_cells n)"
proof -
  have "interior_cells n \<subseteq> (\<lambda>(r, c). row_col_to_point n r c) ` ({1..n - 2} \<times> {1..n - 2})"
    by (auto simp: interior_cells_def)
  then show ?thesis by (rule finite_subset) simp
qed

lemma card_interior_cells:
  assumes "2 \<le> n"
  shows "card (interior_cells n) = nat ((n - 2) ^ 2)"
proof -
  let ?f = "\<lambda>(r, c). row_col_to_point n r c"
  let ?S = "{1..n - 2} \<times> {1..n - 2}"
  have eq: "interior_cells n = ?f ` ?S"
    unfolding interior_cells_def by (auto simp: image_iff) blast
  have "inj_on ?f ?S"
  proof (rule inj_onI)
    fix x y assume x: "x \<in> ?S" and y: "y \<in> ?S" and e: "?f x = ?f y"
    obtain r c where [simp]: "x = (r, c)" by (cases x)
    obtain r' c' where [simp]: "y = (r', c')" by (cases y)
    have c: "0 \<le> c" "c < n" and c': "0 \<le> c'" "c' < n" using x y by auto
    have "r * n + c = r' * n + c'" using e by (simp add: row_col_to_point_def)
    then have "(r * n + c) div n = (r' * n + c') div n" "(r * n + c) mod n = (r' * n + c') mod n"
      by simp_all
    then show "x = y"
      unfolding div_mod_cell [OF c] div_mod_cell [OF c'] by simp
  qed
  then have "card (interior_cells n) = card ?S"
    unfolding eq by (rule card_image)
  also have "\<dots> = nat (n - 2) * nat (n - 2)" by simp
  also have "\<dots> = nat ((n - 2) ^ 2)"
    using assms by (simp add: power2_eq_square nat_mult_distrib)
  finally show ?thesis .
qed

lemma on_cycle_interior:
  assumes "on_cycle n i sp"
  shows "sp \<in> interior_cells n"
proof -
  have "sp = row_col_to_point n (sp div n) (sp mod n)"
    by (simp add: row_col_to_point_def)
  with assms show ?thesis
    unfolding interior_cells_def on_cycle_def interior_rc_def by blast
qed

lemma cycle_square_hamiltonian:
  assumes n: "even n" "4 \<le> n"
  shows "length (get_cycle_square n) = nat ((n - 2) ^ 2)"
    and "distinct (get_cycle_square n)"
    and "set (get_cycle_square n) = interior_cells n"
    and "\<forall>i<length (get_cycle_square n).
          manhattan n (get_cycle_square n ! i)
            (get_cycle_square n ! ((i + 1) mod length (get_cycle_square n))) = 1"
proof -
  let ?len = "nat ((n - 2) ^ 2)"
  let ?cyc = "get_cycle_square n"
  have cyc: "?cyc = map (sweep n) [0..<?len]" by (rule get_cycle_square_eq)
  show len: "length ?cyc = ?len" by (simp add: cyc)
  have lt: "int i < (n - 2) ^ 2" if "i < ?len" for i using that by simp
  show dist: "distinct ?cyc"
    unfolding cyc distinct_map
  proof
    show "distinct [0..<?len]" by simp
    show "inj_on (sweep n) (set [0..<?len])"
      by (rule inj_onI) (use sweep_inj [OF n] lt in auto)
  qed
  have sub: "set ?cyc \<subseteq> interior_cells n"
  proof
    fix p assume "p \<in> set ?cyc"
    then obtain i where "i < ?len" "p = sweep n i" unfolding cyc by auto
    with sweep_on_cycle [OF n lt] show "p \<in> interior_cells n"
      by (auto intro: on_cycle_interior)
  qed
  have "card (set ?cyc) = ?len"
    using dist len by (simp add: distinct_card)
  then have "card (set ?cyc) = card (interior_cells n)"
    using card_interior_cells [of n] n by simp
  with sub show "set ?cyc = interior_cells n"
    using finite_interior_cells by (intro card_subset_eq) auto
  show "\<forall>i<length ?cyc. manhattan n (?cyc ! i) (?cyc ! ((i + 1) mod length ?cyc)) = 1"
  proof (intro allI impI)
    fix i assume "i < length ?cyc"
    then have i: "i < ?len" by (simp add: len)
    show "manhattan n (?cyc ! i) (?cyc ! ((i + 1) mod length ?cyc)) = 1"
    proof (cases "Suc i < ?len")
      case True
      then have "manhattan n (sweep n i) (sweep n (Suc i)) = 1"
        by (intro sweep_adjacent [OF n]) simp
      with True i show ?thesis by (simp add: cyc)
    next
      case False
      with i have last: "Suc i = ?len" by simp
      then have "int i + 1 = (n - 2) ^ 2" by (metis of_nat_Suc int_nat_eq zero_le_power2 add.commute of_nat_1 of_nat_add)
      from on_cycle_last [OF n sweep_on_cycle [OF n lt [OF i]] this]
      have sp: "sweep n i = 1 * n + 2" .
      have a: "(1 * n + 2) div n = 1" "(1 * n + 2) mod n = 2"
        using n by (intro div_mod_cell; simp)+
      have b: "(1 * n + 1) div n = 1" "(1 * n + 1) mod n = 1"
        using n by (intro div_mod_cell; simp)+
      have "manhattan n (1 * n + 2) (1 * n + 1) = 1"
        unfolding manhattan_def point_to_row_col_def a b by simp
      moreover have "?cyc ! ((i + 1) mod length ?cyc) = sweep n 0"
      proof -
        have "(i + 1) mod length ?cyc = 0" using last by (simp add: len)
        moreover have "0 < ?len" using i by linarith
        ultimately show ?thesis unfolding cyc using n by (simp del: sweep.simps upt_Suc)
      qed
      ultimately show ?thesis using i sp by (simp add: cyc cycle_step_def)
    qed
  qed
qed

text \<open>
  C3: for every even board side length of at least 8, the cycle built by
  \<^verbatim>\<open>_get_cycle_square\<close> has length \<open>(size - 2)\<^sup>2\<close>, has no repeated cell and holds
  exactly the interior cells (so each interior cell occurs exactly once), and every cell is
  at Manhattan distance 1 from its successor, the successor of the last cell being the
  first.
\<close>

theorem get_cycle_square_hamiltonian:
  assumes "even n" and "8 \<le> n"
  shows "length (get_cycle_square n) = nat ((n - 2) ^ 2) \<and>
         distinct (get_cycle_square n) \<and>
         set (get_cycle_square n) = interior_cells n \<and>
         (\<forall>i<length (get_cycle_square n).
            manhattan n (get_cycle_square n ! i)
              (get_cycle_square n ! ((i + 1) mod length (get_cycle_square n))) = 1)"
proof -
  from assms have "4 \<le> n" by simp
  from cycle_square_hamiltonian [OF assms(1) this] show ?thesis by blast
qed

theorem get_cycle_square_hamiltonian_witness:
  "even (8::int) \<and> (8::int) \<le> 8 \<and>
   length (get_cycle_square 8) = 36 \<and> distinct (get_cycle_square 8) \<and>
   set (get_cycle_square 8) = interior_cells 8 \<and>
   manhattan 8 (get_cycle_square 8 ! 35) (get_cycle_square 8 ! 0) = 1"
proof -
  have h: "even (8::int)" "(8::int) \<le> 8" by simp_all
  note c = get_cycle_square_hamiltonian [OF h]
  from c have len: "length (get_cycle_square 8) = 36" by simp
  from c have "\<forall>i<36. manhattan 8 (get_cycle_square 8 ! i)
      (get_cycle_square 8 ! ((i + 1) mod 36)) = 1"
    unfolding len by blast
  from this [rule_format, of 35]
  have "manhattan 8 (get_cycle_square 8 ! 35) (get_cycle_square 8 ! 0) = 1" by simp
  with c len h show ?thesis by simp
qed

subsection \<open>Moves along the cycle\<close>

lemma np_get_in_range: "0 \<le> i \<Longrightarrow> i < int (length xs) \<Longrightarrow> np_get xs i = Inr (xs ! nat i)"
  by (simp add: np_get_def)

lemma find_on_cycle_hit:
  assumes "j < length cyc" "cyc ! j = h" "\<forall>k<j. cyc ! k \<noteq> h"
  shows "i \<le> j \<Longrightarrow> find_on_cycle cyc (int (length cyc)) h (int i) = Some (Inr (int j))"
proof (induction "j - i" arbitrary: i)
  case 0
  then have "i = j" by simp
  then show ?case using assms by (subst find_on_cycle.simps) (simp add: np_get_in_range)
next
  case (Suc d)
  then have lt: "i < j" by simp
  then have ne: "cyc ! i \<noteq> h" using assms(3) by simp
  have nxt: "(int i + 1) mod int (length cyc) = int i + 1"
    using lt assms(1) by simp
  have "find_on_cycle cyc (int (length cyc)) h (int (Suc i)) = Some (Inr (int j))"
    using Suc lt by (intro Suc(1)) auto
  then have "find_on_cycle cyc (int (length cyc)) h (int i + 1) = Some (Inr (int j))"
    by (simp add: add.commute)
  then show ?case
    using lt assms(1) ne by (subst find_on_cycle.simps) (auto simp: np_get_in_range nxt)
qed

lemma find_on_cycle_distinct:
  assumes "distinct cyc" "j < length cyc"
  shows "find_on_cycle cyc (int (length cyc)) (cyc ! j) 0 = Some (Inr (int j))"
proof -
  have "\<forall>k<j. cyc ! k \<noteq> cyc ! j"
    using assms by (auto simp: nth_eq_iff_index_eq)
  from find_on_cycle_hit [OF assms(2) refl this, of 0] show ?thesis by simp
qed

lemma displacement_action_table:
  "direction_table (dx, dy) = Some a \<Longrightarrow> displacement_action dx dy = a"
  "direction_table (dx, dy) = None \<Longrightarrow> displacement_action dx dy = - 1"
  by (auto simp: direction_table_def displacement_action_def split: if_splits)

lemma manhattan_unit:
  assumes "manhattan n p q = 1"
  shows "\<exists>a\<in>{0, 1, 2, 3}. direction_table (q mod n - p mod n, - (q div n) + p div n) = Some a"
proof -
  have "\<bar>p div n - q div n\<bar> + \<bar>p mod n - q mod n\<bar> = 1"
    using assms by (simp add: manhattan_def point_to_row_col_def)
  then consider "p div n = q div n" "q mod n - p mod n = 1"
    | "p div n = q div n" "q mod n - p mod n = - 1"
    | "p mod n = q mod n" "- (q div n) + p div n = 1"
    | "p mod n = q mod n" "- (q div n) + p div n = - 1"
    by linarith
  then show ?thesis
    by cases (simp_all add: direction_table_def)
qed

lemma np_get3_shape:
  assumes "has_shape n f b" "0 < f" "0 \<le> r" "r < n" "0 \<le> c" "c < n"
  shows "\<exists>v. np_get3 b r c 0 = Inr v"
proof -
  have len: "int (length b) = n" using assms(1) by (simp add: has_shape_def)
  have r: "nat r < length b" using assms(3,4) len by auto
  then have row: "int (length (b ! nat r)) = n"
    and cells: "list_all (\<lambda>cell. length cell = f) (b ! nat r)"
    using assms(1) by (simp_all add: has_shape_def list_all_length)
  have c: "nat c < length (b ! nat r)" using assms(5,6) row by auto
  then have "length (b ! nat r ! nat c) = f" using cells by (simp add: list_all_length)
  then have "0 < int (length (b ! nat r ! nat c))" using assms(2) by simp
  then show ?thesis
    using assms(3-6) len row by (simp add: np_get3_def np_get_in_range)
qed

lemma interior_cells_div_mod:
  assumes "p \<in> interior_cells n"
  shows "1 \<le> p div n \<and> p div n \<le> n - 2 \<and> 1 \<le> p mod n \<and> p mod n \<le> n - 2"
proof -
  from assms obtain r c where p: "p = r * n + c" and rc: "1 \<le> r" "r \<le> n - 2" "1 \<le> c" "c \<le> n - 2"
    by (auto simp: interior_cells_def row_col_to_point_def)
  have "0 \<le> c" "c < n" using rc by auto
  from div_mod_cell [OF this, of r] rc show ?thesis unfolding p by simp
qed

lemma hamiltonian_move_on_cycle_aux:
  assumes init: "HamiltonianCycleAgent_init n f = Inr agent"
    and shape: "has_shape n f b" "0 < f"
    and i: "i < length (cycle agent)"
    and head: "find_value (frame b 0) (head_value vals) = cycle agent ! i"
  defines "len \<equiv> int (length (cycle agent))"
  defines "prev_head \<equiv> cycle agent ! nat ((int i - 1) mod len)"
  defines "curr_head \<equiv> cycle agent ! i"
  defines "next_head \<equiv> cycle agent ! nat ((int i + 1) mod len)"
  shows "hamiltonian_move agent b vals = Some (next_move n b prev_head curr_head next_head)"
    and "\<exists>v. np_get3 b (prev_head div n) (prev_head mod n) 0 = Inr v"
    and "manhattan n curr_head next_head = 1"
proof -
  have n: "even n" "0 < n"
    and agent: "agent = \<lparr>board_size = n, n_frames = f, cycle = get_cycle_square n\<rparr>"
    using init by (auto simp: HamiltonianCycleAgent_init_def even_iff_mod_2_eq_zero split: if_splits)
  have cyc: "cycle agent = get_cycle_square n" by (simp add: agent)
  have n4: "4 \<le> n"
  proof (rule ccontr)
    assume "\<not> 4 \<le> n"
    with n have "n = 2" by presburger
    then have "get_cycle_square n = []"
      by (simp add: get_cycle_square_eq)
    with i cyc show False by simp
  qed
  note ham = cycle_square_hamiltonian [OF n(1) n4, folded cyc]
  have len: "len = (n - 2) ^ 2" unfolding len_def ham(1) by simp
  have len0: "0 < len" using i unfolding len_def by (cases "cycle agent") simp_all
  have find: "find_on_cycle (cycle agent) len curr_head 0 = Some (Inr (int i))"
    unfolding len_def curr_head_def by (rule find_on_cycle_distinct [OF ham(2) i])
  have pi: "0 \<le> (int i - 1) mod len" "(int i - 1) mod len < len"
    and ni: "0 \<le> (int i + 1) mod len" "(int i + 1) mod len < len"
    using len0 by simp_all
  have prev: "np_get (cycle agent) ((int i - 1) mod len) = Inr prev_head"
    unfolding prev_head_def using pi by (intro np_get_in_range) (simp_all add: len_def)
  have nxt: "np_get (cycle agent) ((int i + 1) mod len) = Inr next_head"
    unfolding next_head_def using ni by (intro np_get_in_range) (simp_all add: len_def)
  show "hamiltonian_move agent b vals = Some (next_move n b prev_head curr_head next_head)"
  proof -
    have bs: "board_size agent = n" "n_frames agent = f" by (simp_all add: agent)
    have ne: "len \<noteq> 0" using len0 by simp
    show ?thesis
      unfolding hamiltonian_move_def Let_def bs head len [symmetric] curr_head_def [symmetric]
      using shape ne by (simp add: find prev nxt)
  qed
  have "nat ((int i - 1) mod len) < length (cycle agent)"
    using pi by (simp add: len_def)
  then have "prev_head \<in> set (cycle agent)"
    unfolding prev_head_def by (rule nth_mem)
  then have "prev_head \<in> interior_cells n" using ham(3) by simp
  from interior_cells_div_mod [OF this]
  show "\<exists>v. np_get3 b (prev_head div n) (prev_head mod n) 0 = Inr v"
    by (intro np_get3_shape [OF shape]) simp_all
  have "nat ((int i + 1) mod len) = (i + 1) mod length (cycle agent)"
    unfolding len_def by (simp add: nat_mod_distrib nat_add_distrib)
  then have "next_head = cycle agent ! ((i + 1) mod length (cycle agent))"
    by (simp add: next_head_def)
  then show "manhattan n curr_head next_head = 1"
    using ham(4) i by (simp add: curr_head_def)
qed

text \<open>
  C8: an agent built by the constructor, a board of its shape whose head cell lies on the
  cycle at index \<open>i\<close>, and a predecessor cell on the cycle that is occupied (not 0 in
  frame 0). Then \<^verbatim>\<open>move\<close> returns an action in \<open>{0, 1, 2, 3}\<close>, the one the table
  \<open>(1,0) \<mapsto> 0, (0,1) \<mapsto> 1, (-1,0) \<mapsto> 2, (0,-1) \<mapsto> 3\<close> gives for the displacement
  \<open>(dx, dy)\<close> from the head to the successor cell, with \<open>dx\<close> the column difference and
  \<open>dy\<close> the row difference upwards; so the unmatched branch is not reached on the cycle.
  A displacement outside the table is answered by \<open>-1\<close>, which is no action: no valid
  action is substituted for it.
\<close>

theorem hamiltonian_move_on_cycle:
  assumes "HamiltonianCycleAgent_init n f = Inr agent"
    and "has_shape n f b" and "0 < f"
    and "i < length (cycle agent)"
    and "find_value (frame b 0) (head_value vals) = cycle agent ! i"
    and "prev_head = cycle agent ! nat ((int i - 1) mod int (length (cycle agent)))"
    and "next_head = cycle agent ! nat ((int i + 1) mod int (length (cycle agent)))"
    and "np_get3 b (prev_head div n) (prev_head mod n) 0 \<noteq> Inr 0"
  shows "(\<exists>a\<in>{0, 1, 2, 3}.
            hamiltonian_move agent b vals = Some (Inr a) \<and>
            direction_table
              (snd (point_to_row_col n next_head) - snd (point_to_row_col n (cycle agent ! i)),
               fst (point_to_row_col n (cycle agent ! i)) - fst (point_to_row_col n next_head))
              = Some a) \<and>
         (\<forall>dx dy. direction_table (dx, dy) = None \<longrightarrow> displacement_action dx dy = - 1)"
proof
  note aux = hamiltonian_move_on_cycle_aux [OF assms(1-5), folded assms(6,7)]
  from aux(2) assms(8) obtain v where v: "np_get3 b (prev_head div n) (prev_head mod n) 0 = Inr v" "v \<noteq> 0"
    by auto
  from manhattan_unit [OF aux(3)] obtain a where a: "a \<in> {0, 1, 2, 3}"
    "direction_table (next_head mod n - cycle agent ! i mod n,
       - (next_head div n) + cycle agent ! i div n) = Some a"
    by blast
  have "next_move n b prev_head (cycle agent ! i) next_head = Inr a"
    using v displacement_action_table(1) [OF a(2)]
    by (simp add: next_move_def intended_direction_def point_to_row_col_def)
  with aux(1) a show "\<exists>a\<in>{0, 1, 2, 3}.
            hamiltonian_move agent b vals = Some (Inr a) \<and>
            direction_table
              (snd (point_to_row_col n next_head) - snd (point_to_row_col n (cycle agent ! i)),
               fst (point_to_row_col n (cycle agent ! i)) - fst (point_to_row_col n next_head))
              = Some a"
    by (auto simp: point_to_row_col_def)
  show "\<forall>dx dy. direction_table (dx, dy) = None \<longrightarrow> displacement_action dx dy = - 1"
    by (simp add: displacement_action_table(2))
qed

lemma get_cycle_square_4: "get_cycle_square 4 = [5, 9, 10, 6]"
  by (simp add: get_cycle_square_eq upt_rec cycle_step_def numeral_2_eq_2 numeral_3_eq_3)

theorem hamiltonian_move_on_cycle_witness:
  "HamiltonianCycleAgent_init 4 1 = Inr \<lparr>board_size = 4, n_frames = 1, cycle = [5, 9, 10, 6]\<rparr> \<and>
   has_shape 4 1 small_board \<and>
   find_value (frame small_board 0) (head_value example_values) = 9 \<and>
   np_get3 small_board 1 1 0 = Inr 1 \<and>
   hamiltonian_move \<lparr>board_size = 4, n_frames = 1, cycle = [5, 9, 10, 6]\<rparr>
     small_board example_values = Some (Inr 0)"
proof -
  let ?agent = "\<lparr>board_size = 4, n_frames = 1, cycle = [5, 9, 10, 6]\<rparr>"
  have init: "HamiltonianCycleAgent_init 4 1 = Inr ?agent"
    by (simp add: HamiltonianCycleAgent_init_def get_cycle_square_4)
  have shape: "has_shape 4 1 small_board"
    by (simp add: has_shape_def small_board_def)
  have head: "find_value (frame small_board 0) (head_value example_values) = cycle ?agent ! 1"
    by (simp add: find_value_def frame_def small_board_def example_values_def enumerate_eq_zip upt_rec)
  have occ: "np_get3 small_board 1 1 0 = Inr 1"
    by (simp add: np_get3_def np_get_def small_board_def)
  have "\<exists>a\<in>{0, 1, 2, 3}.
      hamiltonian_move ?agent small_board example_values = Some (Inr a) \<and>
      direction_table
        (snd (point_to_row_col 4 10) - snd (point_to_row_col 4 (cycle ?agent ! 1)),
         fst (point_to_row_col 4 (cycle ?agent ! 1)) - fst (point_to_row_col 4 10)) = Some a"
    using hamiltonian_move_on_cycle [OF init shape _ _ head, of 5 10] occ
    by simp
  then have "hamiltonian_move ?agent small_board example_values = Some (Inr 0)"
    by (auto simp: point_to_row_col_def direction_table_def split: if_splits)
  with init shape head occ show ?thesis by simp
qed

subsection \<open>DeepQLearningAgent: the model outputs\<close>








subsection \<open>DeepQLearningAgent: the action selected is legal\<close>















subsection \<open>DeepQLearningAgent: the regression target\<close>









subsection \<open>DeepQLearningAgent: the action probabilities\<close>











subsection \<open>PolicyGradientAgent: the loss\<close>










lemma pg_loss_action_rows:
  "pg_loss beta logits (ActionRows rows) rewards = Inl RuntimeError"
  by (simp add: pg_loss_def gather_taken_def)

subsection \<open>BreadthFirstSearchAgent: paths and fallback\<close>

lemma bfs_search_fuel_sound:
  "bfs_search_fuel k n vals grid st = Some res \<Longrightarrow> bfs_search n vals grid st = Some res"
proof (induction k arbitrary: st)
  case 0
  then show ?case by simp
next
  case (Suc k)
  show ?case
    using Suc.prems
    by (subst bfs_search.simps)
       (auto split: if_splits list.splits sum.splits intro: Suc.IH)
qed

lemma walk_back_fuel_sound:
  "walk_back_fuel k n vals grid ds curr_point path = Some res \<Longrightarrow>
   walk_back n vals grid ds curr_point path = Some res"
proof (induction k arbitrary: curr_point path)
  case 0
  then show ?case by simp
next
  case (Suc k)
  show ?case
    using Suc.prems
    by (subst walk_back.simps)
       (auto split: if_splits list.splits sum.splits option.splits intro: Suc.IH)
qed

lemma get_shortest_path_fuel_sound:
  assumes "get_shortest_path_fuel k n f vals b = Some res"
  shows "get_shortest_path n f vals b = Some res"
proof (cases "\<not> has_shape n f b \<or> f = 0")
  case True
  then show ?thesis
    using assms by (simp add: get_shortest_path_fuel_def get_shortest_path_def)
next
  case shape: False
  define grid where "grid = frame b 0"
  define head where "head = find_value grid (head_value vals)"
  define food where "food = find_value grid (food_value vals)"
  note defs = grid_def [symmetric] head_def [symmetric] food_def [symmetric]
  show ?thesis
  proof (cases "bfs_initial_state n head")
    case (Inl e)
    then show ?thesis
      using assms shape unfolding get_shortest_path_fuel_def get_shortest_path_def Let_def defs
      by simp
  next
    case st0: (Inr st0)
    have fuel: "(case bfs_search_fuel k n vals grid st0 of
                   None \<Rightarrow> None
                 | Some (Inl e) \<Rightarrow> Some (Inl e)
                 | Some (Inr st) \<Rightarrow> walk_back_fuel k n vals grid (distances st) food [food])
                = Some res"
      using assms shape st0
      unfolding get_shortest_path_fuel_def Let_def defs by simp
    have goal: "get_shortest_path n f vals b =
                (case bfs_search n vals grid st0 of
                   None \<Rightarrow> None
                 | Some (Inl e) \<Rightarrow> Some (Inl e)
                 | Some (Inr st) \<Rightarrow> walk_back n vals grid (distances st) food [food])"
      using shape st0
      unfolding get_shortest_path_def Let_def defs by simp
    from fuel obtain x where x: "bfs_search_fuel k n vals grid st0 = Some x"
      by (cases "bfs_search_fuel k n vals grid st0") auto
    from bfs_search_fuel_sound [OF x] have x': "bfs_search n vals grid st0 = Some x" .
    show ?thesis
    proof (cases x)
      case (Inl e)
      then show ?thesis using fuel x x' goal by simp
    next
      case (Inr st)
      then have "walk_back_fuel k n vals grid (distances st) food [food] = Some res"
        using fuel x by simp
      from walk_back_fuel_sound [OF this] show ?thesis using x' Inr goal by simp
    qed
  qed
qed

lemma in_range_slot: "in_range n i \<Longrightarrow> nat (i mod n) < nat n"
  by (cases "n \<le> 0") (auto simp: in_range_def nat_less_iff)

lemma np_get_range:
  "np_get xs i = (if in_range (int (length xs)) i then Inr (xs ! nat (i mod int (length xs)))
                  else Inl IndexError)"
  by (simp add: np_get_def in_range_def Let_def)

lemma np_set_range:
  "np_set xs i v = (if in_range (int (length xs)) i then Inr (xs[nat (i mod int (length xs)) := v])
                    else Inl IndexError)"
  by (simp add: np_set_def in_range_def Let_def)

lemma square_row:
  assumes "square n a" "in_range n i"
  shows "int (length (a ! nat (i mod n))) = n"
proof -
  have "length a = nat n" using assms(1) by (auto simp: square_def)
  then have "nat (i mod n) < length a"
    using in_range_slot [OF assms(2)] by simp
  then show ?thesis using assms(1) by (simp add: square_def)
qed

lemma np_get2_square:
  assumes "square n a"
  shows "np_get2 a i j =
           (if in_range n i \<and> in_range n j then Inr (a ! nat (i mod n) ! nat (j mod n))
            else Inl IndexError)"
proof -
  have len: "int (length a) = n" using assms by (simp add: square_def)
  show ?thesis
    unfolding np_get2_def np_get_range len
    using square_row [OF assms] by (auto simp: np_get_range)
qed

lemma np_set2_square:
  assumes "square n a"
  shows "np_set2 a i j v =
           (if in_range n i \<and> in_range n j
            then Inr (a[nat (i mod n) := (a ! nat (i mod n))[nat (j mod n) := v]])
            else Inl IndexError)"
proof -
  have len: "int (length a) = n" using assms by (simp add: square_def)
  show ?thesis
    unfolding np_set2_def np_get_range np_set_range len
    using square_row [OF assms] by (auto simp: np_set_range np_get_range)
qed

lemma square_update:
  assumes "square n a" "r < length a"
  shows "square n (a[r := (a ! r)[c := v]])"
  using assms unfolding square_def
  by (auto simp: set_conv_nth nth_list_update)

lemma nth_update2:
  assumes "r < length a" "c < length (a ! r)"
  shows "a[r := (a ! r)[c := v]] ! r' ! c' = (if r' = r \<and> c' = c then v else a ! r' ! c')"
  using assms by (auto simp: nth_list_update)

lemma bfs_scan_inv:
  assumes g: "square n grid"
  shows "bfs_scan n vals grid cr cc ps st = Inr st' \<Longrightarrow> \<not> found st \<Longrightarrow>
         food_unreached n grid vals h st \<Longrightarrow> food_unreached n grid vals h st'"
proof (induction ps arbitrary: st)
  case Nil
  then show ?case by simp
next
  case (Cons p ps)
  obtain row col where rc: "point_to_row_col n p = (row, col)"
    by (cases "point_to_row_col n p")
  let ?D = "distances st"
  have sq: "square n ?D" using Cons.prems(3) by (simp add: food_unreached_def)
  have old: "\<forall>r c. r < nat n \<longrightarrow> c < nat n \<longrightarrow> ?D ! r ! c \<noteq> NpInf \<longrightarrow>
               (r, c) = h \<or> grid ! r ! c \<noteq> food_value vals"
    using Cons.prems(2,3) by (simp add: food_unreached_def)
  from Cons.prems(1) obtain d dc ds v where
    d: "np_get2 ?D row col = Inr d" and dc: "np_get2 ?D cr cc = Inr dc"
    and ds: "(if dist_gt d (dist_succ dc) then np_set2 ?D row col (dist_succ dc) else Inr ?D)
               = Inr ds"
    and v: "np_get2 grid row col = Inr v"
    and rest: "(if v = food_value vals then Inr (st\<lparr>distances := ds, found := True\<rparr>)
       else
         (case np_get2 (visited st) row col of Inl e \<Rightarrow> Inl e | Inr seen \<Rightarrow>
            if seen = 0
            then (case np_set2 (visited st) cr cc 1 of
                    Inl e \<Rightarrow> Inl e
                  | Inr vs \<Rightarrow>
                      bfs_scan n vals grid cr cc ps
                        (st\<lparr>points_to_search := points_to_search st @ [p],
                           distances := ds, visited := vs\<rparr>))
            else bfs_scan n vals grid cr cc ps (st\<lparr>distances := ds\<rparr>))) = Inr st'"
    by (auto simp: rc split: sum.splits)
  have rng: "in_range n row" "in_range n col"
    using d sq by (auto simp: np_get2_square split: if_splits)
  define r0 c0 where "r0 = nat (row mod n)" and "c0 = nat (col mod n)"
  have r0: "r0 < nat n" "c0 < nat n"
    unfolding r0_def c0_def by (rule in_range_slot [OF rng(1)], rule in_range_slot [OF rng(2)])
  have lenD: "length ?D = nat n" using sq by (auto simp: square_def)
  have lenrow: "length (?D ! r0) = nat n"
    using sq r0 lenD by (auto simp: square_def)
  have gv: "grid ! r0 ! c0 = v"
    using v g rng by (simp add: np_get2_square r0_def c0_def)
  have ds_cases: "ds = ?D \<or> ds = ?D[r0 := (?D ! r0)[c0 := dist_succ dc]]"
    using ds sq rng by (auto simp: np_set2_square r0_def c0_def split: if_splits)
  have sqds: "square n ds"
    using ds_cases sq square_update [OF sq, of r0 c0 "dist_succ dc"] r0 lenD by auto
  have key: "\<forall>r c. r < nat n \<longrightarrow> c < nat n \<longrightarrow> ds ! r ! c \<noteq> NpInf \<longrightarrow>
               (r, c) = h \<or> grid ! r ! c \<noteq> food_value vals"
    if nf: "v \<noteq> food_value vals"
  proof (intro allI impI)
    fix r c assume r: "r < nat n" and c: "c < nat n" and fin: "ds ! r ! c \<noteq> NpInf"
    show "(r, c) = h \<or> grid ! r ! c \<noteq> food_value vals"
    proof (cases "r = r0 \<and> c = c0")
      case True
      then show ?thesis using gv nf by simp
    next
      case False
      have "ds ! r ! c = ?D ! r ! c"
        using ds_cases False nth_update2 [of r0 ?D c0 "dist_succ dc" r c] r0 lenD lenrow
        by auto
      with fin old r c show ?thesis by simp
    qed
  qed
  show ?case
  proof (cases "v = food_value vals")
    case True
    then have "st' = st\<lparr>distances := ds, found := True\<rparr>" using rest by simp
    then show ?thesis using sqds by (simp add: food_unreached_def)
  next
    case False
    have inv: "food_unreached n grid vals h st1"
      if "distances st1 = ds" for st1 :: bfs_state
      using key [OF False] sqds that by (simp add: food_unreached_def)
    from rest False obtain st1 where
      st1: "bfs_scan n vals grid cr cc ps st1 = Inr st'" "distances st1 = ds" "\<not> found st1"
      using Cons.prems(2) by (auto split: sum.splits if_splits)
    from Cons.IH [OF st1(1) st1(3) inv [OF st1(2)]] show ?thesis .
  qed
qed

lemma bfs_search_inv:
  assumes "bfs_search n vals grid st = Some res"
  shows "square n grid \<longrightarrow> food_unreached n grid vals h st \<longrightarrow>
         (\<forall>st'. res = Inr st' \<longrightarrow> food_unreached n grid vals h st')"
  using assms
proof (induction rule: bfs_search.raw_induct [rotated, consumes 1])
  case (1 search n vals grid st res)
  show ?case
  proof (intro impI allI)
    fix st'
    assume g: "square n grid" and inv: "food_unreached n grid vals h st" and res: "res = Inr st'"
    show "food_unreached n grid vals h st'"
    proof (cases "found st")
      case True
      then show ?thesis using 1(2) res inv by simp
    next
      case nf: False
      show ?thesis
      proof (cases "points_to_search st")
        case Nil
        then show ?thesis using 1(2) nf res inv by simp
      next
        case (Cons curr_point rest)
        have inv': "food_unreached n grid vals h (st\<lparr>points_to_search := rest\<rparr>)"
          using inv by (simp add: food_unreached_def)
        from 1(2) nf Cons res obtain neighbors where
          nb: "bfs_get_neighbors n vals grid curr_point = Inr neighbors"
          by (auto split: sum.splits)
        show ?thesis
        proof (cases "length neighbors = 0")
          case True
          then have "search n vals grid (st\<lparr>points_to_search := rest\<rparr>) = Some res"
            using 1(2) nf Cons nb by simp
          from 1(1) [OF this] g inv' res show ?thesis by simp
        next
          case False
          from 1(2) nf Cons nb False res obtain st1 where
            sc: "bfs_scan n vals grid (fst (point_to_row_col n curr_point))
                   (snd (point_to_row_col n curr_point)) neighbors
                   (st\<lparr>points_to_search := rest\<rparr>) = Inr st1"
            and rec: "search n vals grid st1 = Some res"
            by (auto split: sum.splits)
          have "food_unreached n grid vals h st1"
            using bfs_scan_inv [OF g sc _ inv'] nf by simp
          from 1(1) [OF rec] g this res show ?thesis by simp
        qed
      qed
    qed
  qed
qed

lemma square_replicate: "0 < n \<Longrightarrow> square n (replicate (nat n) (replicate (nat n) x))"
  by (simp add: square_def)

lemma bfs_initial_state_inv:
  assumes "bfs_initial_state n head = Inr st0"
  defines "row \<equiv> fst (point_to_row_col n head)" and "col \<equiv> snd (point_to_row_col n head)"
  shows "in_range n row" "in_range n col" "\<not> found st0"
    "food_unreached n grid vals (nat (row mod n), nat (col mod n)) st0"
proof -
  let ?D = "replicate (nat n) (replicate (nat n) NpInf)"
  from assms(1) obtain ds vs where
    ds: "np_set2 ?D row col (Dist 0) = Inr ds"
    and st0: "st0 = \<lparr>points_to_search = [head], distances = ds, visited = vs, found = False\<rparr>"
    unfolding bfs_initial_state_def Let_def row_def col_def
    by (auto split: sum.splits)
  have "np_get ?D row \<noteq> Inl IndexError"
    using ds by (auto simp: np_set2_def split: sum.splits)
  then have n: "0 < n" by (auto simp: np_get_range in_range_def split: if_splits)
  note sq = square_replicate [OF n, of NpInf]
  show rng: "in_range n row" "in_range n col"
    using ds by (auto simp: np_set2_square [OF sq] split: if_splits)
  show "\<not> found st0" by (simp add: st0)
  let ?r = "nat (row mod n)" and ?c = "nat (col mod n)"
  have dseq: "ds = ?D[?r := (?D ! ?r)[?c := Dist 0]]"
    using ds rng by (simp add: np_set2_square [OF sq])
  have r: "?r < nat n" "?c < nat n" using rng by (simp_all only: in_range_slot)
  have sqds: "square n ds"
    unfolding dseq using r by (intro square_update [OF sq]) simp
  have "ds ! r' ! c' = (if r' = ?r \<and> c' = ?c then Dist 0 else NpInf)"
    if "r' < nat n" "c' < nat n" for r' c'
    unfolding dseq using that r by (subst nth_update2) auto
  then show "food_unreached n grid vals (?r, ?c) st0"
    using sqds by (auto simp: food_unreached_def st0)
qed

lemma has_shape_square:
  assumes "has_shape n f b"
  shows "square n (frame b k)"
  using assms by (auto simp: has_shape_def square_def frame_def list_all_iff)

lemma walk_back_infinite:
  assumes "np_get2 ds (fst (point_to_row_col n p)) (snd (point_to_row_col n p)) = Inr NpInf"
  shows "walk_back n vals grid ds p path = Some (Inr [])"
  using assms by (subst walk_back.simps) simp

lemma bfs_action_empty:
  assumes "get_shortest_path n f vals b = Some (Inr [])"
  shows "bfs_action n f vals b = Some (Inr 1)" "bfs_move n f vals [b] = Some (Inr [1])"
  using assms by (simp_all add: bfs_action_def)

lemma unreachable_empty_path:
  assumes shape: "has_shape n f b" "0 < f"
    and init: "bfs_initial_state n (find_value (frame b 0) (head_value vals)) = Inr st0"
    and search: "bfs_search n vals (frame b 0) st0 = Some (Inr st)" "\<not> found st"
    and food: "np_get2 (frame b 0)
                 (fst (point_to_row_col n (find_value (frame b 0) (food_value vals))))
                 (snd (point_to_row_col n (find_value (frame b 0) (food_value vals))))
               = Inr (food_value vals)"
    and head: "np_get2 (frame b 0)
                 (fst (point_to_row_col n (find_value (frame b 0) (head_value vals))))
                 (snd (point_to_row_col n (find_value (frame b 0) (head_value vals))))
               \<noteq> Inr (food_value vals)"
  shows "get_shortest_path n f vals b = Some (Inr [])"
proof -
  define grid where "grid = frame b 0"
  define hp where "hp = find_value grid (head_value vals)"
  define fp where "fp = find_value grid (food_value vals)"
  define hr hc where "hr = fst (point_to_row_col n hp)" and "hc = snd (point_to_row_col n hp)"
  define fr fc where "fr = fst (point_to_row_col n fp)" and "fc = snd (point_to_row_col n fp)"
  note defs = grid_def [symmetric] hp_def [symmetric] fp_def [symmetric]
  have g: "square n grid" unfolding grid_def by (rule has_shape_square [OF shape(1)])
  note i = bfs_initial_state_inv [OF init [unfolded defs], folded hr_def hc_def]
  from bfs_search_inv [OF search(1) [unfolded defs], of "(nat (hr mod n), nat (hc mod n))"] g
    i(4) [where grid = grid and vals = vals]
  have inv: "food_unreached n grid vals (nat (hr mod n), nat (hc mod n)) st" by simp
  have frng: "in_range n fr" "in_range n fc"
    and fv: "grid ! nat (fr mod n) ! nat (fc mod n) = food_value vals"
    using food [unfolded defs, folded fr_def fc_def]
    by (auto simp: np_get2_square [OF g] split: if_splits)
  have hv: "grid ! nat (hr mod n) ! nat (hc mod n) \<noteq> food_value vals"
    using head [unfolded defs, folded hr_def hc_def] i(1,2)
    by (simp add: np_get2_square [OF g])
  have ne: "(nat (fr mod n), nat (fc mod n)) \<noteq> (nat (hr mod n), nat (hc mod n))"
    using fv hv by auto
  have sq: "square n (distances st)" using inv by (simp add: food_unreached_def)
  have "distances st ! nat (fr mod n) ! nat (fc mod n) = NpInf"
    using inv search(2) ne fv in_range_slot [OF frng(1)] in_range_slot [OF frng(2)]
    unfolding food_unreached_def by blast
  then have "np_get2 (distances st) fr fc = Inr NpInf"
    using frng by (simp add: np_get2_square [OF sq])
  then have "walk_back n vals grid (distances st) fp [fp] = Some (Inr [])"
    unfolding fr_def fc_def by (rule walk_back_infinite)
  then show ?thesis
    using shape init search(1)
    unfolding get_shortest_path_def Let_def defs by simp
qed

text \<open>
  C6: a board of the agent's shape on which the search loop ends with the queue empty and
  the food not found, the cell located as the food holding the food code and the cell
  located as the head not holding it. Then \<^verbatim>\<open>_get_shortest_path\<close> returns the empty path
  (a value, not an error) and \<^verbatim>\<open>move\<close> returns the action 1 for the board. Besides, the
  walk back returns the empty path whenever it meets a cell whose recorded distance is
  infinite, and \<^verbatim>\<open>move\<close> answers every empty path with the action 1.
\<close>

theorem bfs_unreachable_food:
  "(has_shape n f b \<and> 0 < f \<and>
    bfs_initial_state n (find_value (frame b 0) (head_value vals)) = Inr st0 \<and>
    bfs_search n vals (frame b 0) st0 = Some (Inr st) \<and> \<not> found st \<and>
    np_get2 (frame b 0)
      (fst (point_to_row_col n (find_value (frame b 0) (food_value vals))))
      (snd (point_to_row_col n (find_value (frame b 0) (food_value vals))))
      = Inr (food_value vals) \<and>
    np_get2 (frame b 0)
      (fst (point_to_row_col n (find_value (frame b 0) (head_value vals))))
      (snd (point_to_row_col n (find_value (frame b 0) (head_value vals))))
      \<noteq> Inr (food_value vals)
    \<longrightarrow> get_shortest_path n f vals b = Some (Inr []) \<and>
        bfs_action n f vals b = Some (Inr 1) \<and>
        bfs_move n f vals [b] = Some (Inr [1])) \<and>
   (np_get2 ds (fst (point_to_row_col n p)) (snd (point_to_row_col n p)) = Inr NpInf
    \<longrightarrow> walk_back n vals grid ds p path = Some (Inr [])) \<and>
   (get_shortest_path n f vals b = Some (Inr [])
    \<longrightarrow> bfs_action n f vals b = Some (Inr 1) \<and> bfs_move n f vals [b] = Some (Inr [1]))"
  using unreachable_empty_path [of n f b vals st0 st] walk_back_infinite [of ds n p vals grid path]
    bfs_action_empty [of n f vals b]
  by blast

lemma enclosed_search:
  "(case bfs_initial_state 6 (find_value (frame (board_of_grid enclosed_grid) 0)
           (head_value example_values)) of
      Inl e \<Rightarrow> False
    | Inr st0 \<Rightarrow>
        (case bfs_search_fuel 100 6 example_values (frame (board_of_grid enclosed_grid) 0) st0 of
           Some (Inr st) \<Rightarrow> \<not> found st
         | _ \<Rightarrow> False))"
  by code_simp

lemma enclosed_cells:
  "has_shape 6 2 (board_of_grid enclosed_grid)"
  "np_get2 (frame (board_of_grid enclosed_grid) 0)
      (fst (point_to_row_col 6 (find_value (frame (board_of_grid enclosed_grid) 0)
         (food_value example_values))))
      (snd (point_to_row_col 6 (find_value (frame (board_of_grid enclosed_grid) 0)
         (food_value example_values))))
      = Inr (food_value example_values)"
  "np_get2 (frame (board_of_grid enclosed_grid) 0)
      (fst (point_to_row_col 6 (find_value (frame (board_of_grid enclosed_grid) 0)
         (head_value example_values))))
      (snd (point_to_row_col 6 (find_value (frame (board_of_grid enclosed_grid) 0)
         (head_value example_values))))
      = Inr (head_value example_values)"
  "head_value example_values \<noteq> food_value example_values"
  by code_simp+

theorem bfs_unreachable_food_witness:
  "has_shape 6 2 (board_of_grid enclosed_grid) \<and>
   (\<exists>st0 st.
      bfs_initial_state 6 (find_value (frame (board_of_grid enclosed_grid) 0)
        (head_value example_values)) = Inr st0 \<and>
      bfs_search 6 example_values (frame (board_of_grid enclosed_grid) 0) st0 = Some (Inr st) \<and>
      \<not> found st) \<and>
   get_shortest_path 6 2 example_values (board_of_grid enclosed_grid) = Some (Inr []) \<and>
   bfs_action 6 2 example_values (board_of_grid enclosed_grid) = Some (Inr 1) \<and>
   bfs_move 6 2 example_values [board_of_grid enclosed_grid] = Some (Inr [1])"
proof -
  let ?b = "board_of_grid enclosed_grid"
  obtain st0 where
    init: "bfs_initial_state 6 (find_value (frame ?b 0) (head_value example_values)) = Inr st0"
    using enclosed_search
    by (cases "bfs_initial_state 6 (find_value (frame ?b 0) (head_value example_values))") auto
  obtain res where res: "bfs_search_fuel 100 6 example_values (frame ?b 0) st0 = Some res"
    using enclosed_search init
    by (cases "bfs_search_fuel 100 6 example_values (frame ?b 0) st0") auto
  obtain st where st: "res = Inr st" and nf: "\<not> found st"
    using enclosed_search init res by (cases res) auto
  have fuel: "bfs_search_fuel 100 6 example_values (frame ?b 0) st0 = Some (Inr st)"
    using res st by simp
  from bfs_search_fuel_sound [OF fuel]
  have search: "bfs_search 6 example_values (frame ?b 0) st0 = Some (Inr st)" .
  have head: "np_get2 (frame ?b 0)
      (fst (point_to_row_col 6 (find_value (frame ?b 0) (head_value example_values))))
      (snd (point_to_row_col 6 (find_value (frame ?b 0) (head_value example_values))))
      \<noteq> Inr (food_value example_values)"
    using enclosed_cells(3,4) by simp
  have "0 < (2::nat)" by simp
  with bfs_unreachable_food [of 6 2 ?b example_values st0 st] enclosed_cells(1,2) init search nf head
  have "get_shortest_path 6 2 example_values ?b = Some (Inr []) \<and>
        bfs_action 6 2 example_values ?b = Some (Inr 1) \<and>
        bfs_move 6 2 example_values [?b] = Some (Inr [1])"
    by blast
  with enclosed_cells(1) init search nf show ?thesis by blast
qed

subsection \<open>BreadthFirstSearchAgent: the open board\<close>

lemma square_upd: "square n a \<Longrightarrow> r < nat n \<Longrightarrow> square n (upd a r c v)"
  unfolding upd_def by (rule square_update) (auto simp: square_def)

lemma in_range_nonneg: "0 \<le> i \<Longrightarrow> i < n \<Longrightarrow> in_range n i"
  by (simp add: in_range_def)

lemma np_get2_read:
  assumes "square n a" "0 \<le> i" "i < n" "0 \<le> j" "j < n"
  shows "np_get2 a i j = Inr (a ! nat i ! nat j)"
  using assms by (simp add: np_get2_square in_range_nonneg)

lemma np_set2_write:
  assumes "square n a" "0 \<le> i" "i < n" "0 \<le> j" "j < n"
  shows "np_set2 a i j v = Inr (upd a (nat i) (nat j) v)"
  using assms by (simp add: np_set2_square in_range_nonneg upd_def)

lemma upd_read:
  assumes "square n a" "r < nat n" "c < nat n"
  shows "upd a r c v ! r' ! c' = (if r' = r \<and> c' = c then v else a ! r' ! c')"
proof -
  have "r < length a" using assms(1,2) by (auto simp: square_def)
  moreover have "c < length (a ! r)"
    using assms \<open>r < length a\<close> by (auto simp: square_def)
  ultimately show ?thesis unfolding upd_def by (rule nth_update2)
qed

lemma replicate_read:
  "r < nat n \<Longrightarrow> c < nat n \<Longrightarrow> replicate (nat n) (replicate (nat n) x) ! r ! c = x"
  by simp

lemma bordered_square: "bordered_open_grid n vals border grid \<Longrightarrow> square n grid"
  by (simp add: bordered_open_grid_def square_def)

lemma bordered_cell:
  assumes "bordered_open_grid n vals border grid" "0 \<le> i" "i < n" "0 \<le> j" "j < n"
  shows "grid ! nat i ! nat j =
           (if i = 0 \<or> i = n - 1 \<or> j = 0 \<or> j = n - 1 then border
            else if i = 1 \<and> j = 1 then head_value vals
            else if i = 1 \<and> j = 3 then food_value vals
            else board_value vals)"
proof -
  have "nat i \<in> set [0..<nat n]" "nat j \<in> set [0..<nat n]" using assms(2-5) by auto
  with assms(1) have "grid ! nat i ! nat j =
          (if nat i = 0 \<or> int (nat i) = n - 1 \<or> nat j = 0 \<or> int (nat j) = n - 1 then border
           else if nat i = 1 \<and> nat j = 1 then head_value vals
           else if nat i = 1 \<and> nat j = 3 then food_value vals
           else board_value vals)"
    unfolding bordered_open_grid_def by blast
  moreover have "nat i = 0 \<longleftrightarrow> i = 0" "nat j = 0 \<longleftrightarrow> j = 0" "nat i = 1 \<longleftrightarrow> i = 1"
    "nat j = 1 \<longleftrightarrow> j = 1" "nat j = 3 \<longleftrightarrow> j = 3" "int (nat i) = i" "int (nat j) = j"
    using assms(2-5) by auto
  ultimately show ?thesis by simp
qed

lemma grid_read:
  assumes "bordered_open_grid n vals border grid" "0 \<le> i" "i < n" "0 \<le> j" "j < n"
  shows "np_get2 grid i j =
           Inr (if i = 0 \<or> i = n - 1 \<or> j = 0 \<or> j = n - 1 then border
                else if i = 1 \<and> j = 1 then head_value vals
                else if i = 1 \<and> j = 3 then food_value vals
                else board_value vals)"
  unfolding np_get2_read [OF bordered_square [OF assms(1)] assms(2-5)]
    bordered_cell [OF assms] by simp

lemma point_rows:
  fixes n :: int
  assumes "0 \<le> c" "c < n"
  shows "point_to_row_col n c = (0, c)"
    "point_to_row_col n (n + c) = (1, c)"
    "point_to_row_col n (2 * n + c) = (2, c)"
    "point_to_row_col n (3 * n + c) = (3, c)"
proof -
  have *: "point_to_row_col n (r * n + c) = (r, c)" for r
    using div_mod_cell [OF assms, of r] by (simp add: point_to_row_col_def)
  show "point_to_row_col n c = (0, c)" using * [of 0] by simp
  show "point_to_row_col n (n + c) = (1, c)" using * [of 1] by simp
  show "point_to_row_col n (2 * n + c) = (2, c)" using * [of 2] by simp
  show "point_to_row_col n (3 * n + c) = (3, c)" using * [of 3] by simp
qed

lemma open_neighbors:
  assumes g: "bordered_open_grid n vals border grid" and n: "5 \<le> n"
    and codes: "border \<noteq> board_value vals" "border \<noteq> food_value vals" "border \<noteq> head_value vals"
  shows "bfs_get_neighbors n vals grid (n + 1) = Inr [2 * n + 1, n + 2]"
    and "bfs_get_neighbors n vals grid (2 * n + 1) = Inr [n + 1, 3 * n + 1, 2 * n + 2]"
    and "bfs_get_neighbors n vals grid (n + 2) = Inr [2 * n + 2, n + 3, n + 1]"
    and "bfs_get_neighbors n vals grid (n + 3) =
           Inr (if n = 5 then [2 * n + 3, n + 2] else [2 * n + 3, n + 4, n + 2])"
  using n codes
  by (simp_all add: bfs_get_neighbors_def point_rows grid_read [OF g])

lemma dist_simps [simp]:
  "dist_succ (Dist k) = Dist (1 + k)" "dist_succ NpInf = NpInf"
  "dist_pred (Dist k) = Dist (k - 1)" "dist_pred NpInf = NpInf"
  by (simp_all add: dist_succ_def dist_pred_def)

lemma open_initial_state:
  assumes n: "5 \<le> n"
  shows "bfs_initial_state n (n + 1) =
    Inr \<lparr>points_to_search = [n + 1],
         distances = upd (replicate (nat n) (replicate (nat n) NpInf)) 1 1 (Dist 0),
         visited = upd (replicate (nat n) (replicate (nat n) 0)) 1 1 1,
         found = False\<rparr>"
proof -
  have n0: "0 < n" using n by simp
  show ?thesis
    using n
    by (simp add: bfs_initial_state_def point_rows np_set2_write [where n = n]
        square_replicate [OF n0])
qed

lemma open_search:
  assumes g: "bordered_open_grid n vals border grid" and n: "5 \<le> n"
    and codes: "border \<noteq> board_value vals" "border \<noteq> food_value vals" "border \<noteq> head_value vals"
      "board_value vals \<noteq> food_value vals" "head_value vals \<noteq> food_value vals"
  defines "D0 \<equiv> upd (replicate (nat n) (replicate (nat n) NpInf)) 1 1 (Dist 0)"
  defines "V0 \<equiv> upd (replicate (nat n) (replicate (nat n) (0::int))) 1 1 1"
  shows "bfs_search_fuel (Suc (Suc (Suc (Suc 0)))) n vals grid
           \<lparr>points_to_search = [n + 1], distances = D0, visited = V0, found = False\<rparr> =
         Some (Inr \<lparr>points_to_search = [3 * n + 1, 2 * n + 2, 2 * n + 2],
           distances = upd (upd (upd (upd (upd D0 2 1 (Dist 1)) 1 2 (Dist 1)) 3 1 (Dist 2))
                         2 2 (Dist 2)) 1 3 (Dist 2),
           visited = upd (upd (upd (upd (upd V0 1 1 1) 1 1 1) 2 1 1) 2 1 1) 1 2 1,
           found = True\<rparr>)"
proof -
  have n0: "0 < n" using n by simp
  note sq = square_replicate [OF n0]
  show ?thesis
    unfolding D0_def V0_def
    using n codes
    by (simp add: open_neighbors [OF g n codes(1-3)] point_rows np_get2_read [where n = n]
        np_set2_write [where n = n] square_upd sq upd_read [where n = n] grid_read [OF g])
qed

lemma open_walk_back:
  assumes g: "bordered_open_grid n vals border grid" and n: "5 \<le> n"
    and codes: "border \<noteq> board_value vals" "border \<noteq> food_value vals" "border \<noteq> head_value vals"
  defines "D0 \<equiv> upd (replicate (nat n) (replicate (nat n) NpInf)) 1 1 (Dist 0)"
  shows "walk_back_fuel (Suc (Suc (Suc (Suc 0)))) n vals grid
           (upd (upd (upd (upd (upd D0 2 1 (Dist 1)) 1 2 (Dist 1)) 3 1 (Dist 2))
                         2 2 (Dist 2)) 1 3 (Dist 2)) (n + 3) [n + 3] =
         Some (Inr [n + 3, n + 2, n + 1])"
proof -
  have n0: "0 < n" using n by simp
  note sq = square_replicate [OF n0]
  note nb = open_neighbors [OF g n codes(1-3)]
  show ?thesis
  proof (cases "n = 5")
    case True
    show ?thesis
      unfolding D0_def
      using n codes
      by (simp add: nb(1-3) nb(4) [unfolded if_P [OF True]] point_rows np_get2_read [where n = n]
          square_upd sq upd_read [where n = n])
  next
    case False
    show ?thesis
      unfolding D0_def
      using n codes
      by (simp add: nb(1-3) nb(4) [unfolded if_not_P [OF False]] point_rows np_get2_read [where n = n]
          square_upd sq upd_read [where n = n])
  qed
qed

lemma concat_nth_rows:
  assumes "\<forall>row\<in>set xss. length row = m"
  shows "r < length xss \<Longrightarrow> c < m \<Longrightarrow> concat xss ! (r * m + c) = xss ! r ! c"
  using assms
proof (induction xss arbitrary: r)
  case Nil
  then show ?case by simp
next
  case (Cons x xss)
  have lx: "length x = m" using Cons.prems(3) by simp
  show ?case
  proof (cases r)
    case 0
    then show ?thesis using Cons.prems(2) lx by (simp add: nth_append)
  next
    case (Suc r')
    have "concat xss ! (r' * m + c) = xss ! r' ! c"
      using Cons.prems Suc by (intro Cons.IH) auto
    then show ?thesis using Suc lx by (simp add: nth_append)
  qed
qed

lemma concat_length_rows:
  "\<forall>row\<in>set xss. length row = m \<Longrightarrow> length (concat xss) = length xss * m"
  by (induction xss) simp_all

lemma find_value_sum:
  "find_value grid v = (\<Sum>k<length (concat grid). if concat grid ! k = v then int k else 0)"
proof -
  let ?xs = "concat grid"
  have "map (\<lambda>(k, x). if x = v then int k else 0) (enumerate 0 ?xs) =
        map (\<lambda>k. if ?xs ! k = v then int k else 0) [0..<length ?xs]"
    by (rule nth_equalityI) (simp_all add: nth_enumerate_eq)
  then have "find_value grid v =
      sum_list (map (\<lambda>k. if ?xs ! k = v then int k else 0) [0..<length ?xs])"
    by (simp add: find_value_def)
  also have "\<dots> = (\<Sum>k<length ?xs. if ?xs ! k = v then int k else 0)"
    by (simp add: sum_list_distinct_conv_sum_set atLeast0LessThan)
  finally show ?thesis .
qed

lemma find_value_unique:
  assumes sq: "square n grid" and r: "0 \<le> r" "r < n" and c: "0 \<le> c" "c < n"
    and at: "grid ! nat r ! nat c = v"
    and only: "\<forall>r' c'. 0 \<le> r' \<and> r' < n \<and> 0 \<le> c' \<and> c' < n \<and> grid ! nat r' ! nat c' = v
                 \<longrightarrow> r' = r \<and> c' = c"
  shows "find_value grid v = r * n + c"
proof -
  let ?xs = "concat grid" and ?m = "nat n"
  have rows: "\<forall>row\<in>set grid. length row = ?m" and lg: "length grid = ?m"
    using sq by (auto simp: square_def)
  have len: "length ?xs = ?m * ?m"
    using concat_length_rows [OF rows] lg by simp
  define k0 where "k0 = nat r * ?m + nat c"
  have n0: "0 < ?m" using r by simp
  have k0: "k0 < length ?xs"
  proof -
    have "nat r * ?m + nat c < nat r * ?m + ?m" using c by simp
    also have "\<dots> = (nat r + 1) * ?m" by simp
    also have "\<dots> \<le> ?m * ?m" using r by (intro mult_le_mono) auto
    finally show ?thesis by (simp add: k0_def len)
  qed
  have cell: "?xs ! k = grid ! (k div ?m) ! (k mod ?m)" if "k < length ?xs" for k
  proof -
    have "k div ?m < length grid"
      using that len lg n0 by (simp add: less_mult_imp_div_less)
    from concat_nth_rows [OF rows this, of "k mod ?m"] n0 show ?thesis by simp
  qed
  have iff: "?xs ! k = v \<longleftrightarrow> k = k0" if k: "k < length ?xs" for k
  proof
    assume "?xs ! k = v"
    then have v: "grid ! (k div ?m) ! (k mod ?m) = v" using cell [OF k] by simp
    have "k div ?m < ?m" using k len n0 by (simp add: less_mult_imp_div_less)
    then have a1: "int (k div ?m) < n" by (simp only: zless_nat_eq_int_zless)
    have "k mod ?m < ?m" using n0 by simp
    then have a2: "int (k mod ?m) < n" by (simp only: zless_nat_eq_int_zless)
    have "int (k div ?m) = r \<and> int (k mod ?m) = c"
      using only [rule_format, of "int (k div ?m)" "int (k mod ?m)"] v a1 a2 by simp
    then have "k div ?m = nat r" "k mod ?m = nat c" by auto
    then have "k = nat r * ?m + nat c" by (metis div_mult_mod_eq)
    then show "k = k0" by (simp add: k0_def)
  next
    assume "k = k0"
    moreover have "k0 div ?m = nat r" "k0 mod ?m = nat c"
      using c r by (simp_all add: k0_def)
    ultimately show "?xs ! k = v" using cell [OF k] at by simp
  qed
  have "find_value grid v = (\<Sum>k<length ?xs. if k = k0 then int k else 0)"
    unfolding find_value_sum by (rule sum.cong) (simp_all add: iff)
  also have "\<dots> = int k0" using k0 by simp
  also have "\<dots> = r * n + c" using r c by (simp add: k0_def)
  finally show ?thesis .
qed

lemma open_board_points:
  assumes g: "bordered_open_grid n vals border grid" and n: "5 \<le> n"
    and codes: "distinct [board_value vals, food_value vals, head_value vals, border]"
  shows "find_value grid (head_value vals) = n + 1" "find_value grid (food_value vals) = n + 3"
proof -
  note sq = bordered_square [OF g]
  have "find_value grid (head_value vals) = 1 * n + 1"
  proof (rule find_value_unique [OF sq])
    show "grid ! nat 1 ! nat 1 = head_value vals"
      using bordered_cell [OF g, of 1 1] n by simp
    show "\<forall>r' c'. 0 \<le> r' \<and> r' < n \<and> 0 \<le> c' \<and> c' < n \<and>
            grid ! nat r' ! nat c' = head_value vals \<longrightarrow> r' = 1 \<and> c' = 1"
      using bordered_cell [OF g] codes by (auto split: if_splits)
  qed (use n in simp_all)
  then show "find_value grid (head_value vals) = n + 1" by simp
  have "find_value grid (food_value vals) = 1 * n + 3"
  proof (rule find_value_unique [OF sq])
    show "grid ! nat 1 ! nat 3 = food_value vals"
      using bordered_cell [OF g, of 1 3] n codes by simp
    show "\<forall>r' c'. 0 \<le> r' \<and> r' < n \<and> 0 \<le> c' \<and> c' < n \<and>
            grid ! nat r' ! nat c' = food_value vals \<longrightarrow> r' = 1 \<and> c' = 3"
      using bordered_cell [OF g] codes by (auto split: if_splits)
  qed (use n in simp_all)
  then show "find_value grid (food_value vals) = n + 3" by simp
qed

lemma open_board_path:
  assumes shape: "has_shape n f b" and f: "0 < f" and n: "5 \<le> n"
    and g: "bordered_open_grid n vals border (frame b 0)"
    and codes: "distinct [board_value vals, food_value vals, head_value vals, border]"
  shows "get_shortest_path n f vals b = Some (Inr [n + 3, n + 2, n + 1])"
proof -
  have c: "border \<noteq> board_value vals" "border \<noteq> food_value vals" "border \<noteq> head_value vals"
    "board_value vals \<noteq> food_value vals" "head_value vals \<noteq> food_value vals"
    using codes by auto
  note pts = open_board_points [OF g n codes]
  define D0 where "D0 = upd (replicate (nat n) (replicate (nat n) NpInf)) 1 1 (Dist 0)"
  define V0 where "V0 = upd (replicate (nat n) (replicate (nat n) (0::int))) 1 1 1"
  define D5 where "D5 = upd (upd (upd (upd (upd D0 2 1 (Dist 1)) 1 2 (Dist 1)) 3 1 (Dist 2))
                         2 2 (Dist 2)) 1 3 (Dist 2)"
  define st0 where
    "st0 = \<lparr>points_to_search = [n + 1], distances = D0, visited = V0, found = False\<rparr>"
  define st5 where
    "st5 = \<lparr>points_to_search = [3 * n + 1, 2 * n + 2, 2 * n + 2], distances = D5,
            visited = upd (upd (upd (upd (upd V0 1 1 1) 1 1 1) 2 1 1) 2 1 1) 1 2 1,
            found = True\<rparr>"
  let ?k = "Suc (Suc (Suc (Suc 0)))"
  have init: "bfs_initial_state n (n + 1) = Inr st0"
    unfolding st0_def D0_def V0_def by (rule open_initial_state [OF n])
  have search: "bfs_search_fuel ?k n vals (frame b 0) st0 = Some (Inr st5)"
    unfolding st0_def st5_def D5_def D0_def V0_def by (rule open_search [OF g n c])
  have walk: "walk_back_fuel ?k n vals (frame b 0) (distances st5) (n + 3) [n + 3]
                = Some (Inr [n + 3, n + 2, n + 1])"
    using open_walk_back [OF g n c(1-3)] by (simp only: st5_def D5_def D0_def bfs_state.simps)
  have sh: "\<not> (\<not> has_shape n f b \<or> f = 0)" using shape f by simp
  have "get_shortest_path_fuel ?k n f vals b = Some (Inr [n + 3, n + 2, n + 1])"
    unfolding get_shortest_path_fuel_def Let_def pts init
    by (simp only: sh if_False sum.case search option.case walk)
  from get_shortest_path_fuel_sound [OF this] show ?thesis .
qed

lemma open_board_general:
  assumes shape: "has_shape n f b" and f: "2 \<le> f" and n: "5 \<le> n"
    and g: "bordered_open_grid n vals border (frame b 0)"
    and codes: "distinct [board_value vals, food_value vals, head_value vals, border]"
  shows "get_shortest_path n f vals b = Some (Inr [n + 3, n + 2, n + 1])"
    and "bfs_action n f vals b = Some (Inr 0)"
proof -
  note pts = open_board_points [OF g n codes]
  have "0 < f" using f by simp
  from open_board_path [OF shape this n g codes]
  show path: "get_shortest_path n f vals b = Some (Inr [n + 3, n + 2, n + 1])" .
  show "bfs_action n f vals b = Some (Inr 0)"
    unfolding bfs_action_def path pts
    using f n by (simp add: np_get_def point_rows Let_def)
qed

lemma open_board_one_frame:
  assumes shape: "has_shape n 1 b" and n: "5 \<le> n"
    and g: "bordered_open_grid n vals border (frame b 0)"
    and codes: "distinct [board_value vals, food_value vals, head_value vals, border]"
  shows "get_shortest_path n 1 vals b = Some (Inr [n + 3, n + 2, n + 1])"
    and "bfs_action n 1 vals b = Some (Inl IndexError)"
proof -
  have "0 < (1::nat)" by simp
  from open_board_path [OF shape this n g codes]
  show path: "get_shortest_path n 1 vals b = Some (Inr [n + 3, n + 2, n + 1])" .
  show "bfs_action n 1 vals b = Some (Inl IndexError)"
    unfolding bfs_action_def path by (simp add: np_get_def)
qed

lemma bfs_move_first:
  assumes "bfs_action n f vals b = Some (Inr action)"
    and "bfs_move n f vals (b # bs) = Some (Inr actions)"
  shows "actions \<noteq> [] \<and> hd actions = action"
  using assms by (auto split: option.splits sum.splits)

text \<open>
  C5: a board of the agent's shape, of side at least 5 and with at least two frames, whose
  frame 0 is obstacle-free: the border code on the outer rows and columns, the head at row
  1, column 1, the food at row 1, column 3 and free cells elsewhere, the four codes being
  different. Then \<^verbatim>\<open>_get_shortest_path\<close> returns the path of length 3 made of the food
  cell, the cell (1,2) and the head cell, and \<^verbatim>\<open>move\<close> returns for this board, alone or
  first of a batch, the action 0, the action of the displacement \<open>(+1, 0)\<close>. The two
  frames are needed: \<^verbatim>\<open>move\<close> reads frame 1 of every board with a path.
\<close>

theorem bfs_open_board:
  assumes "has_shape n f b" and "2 \<le> f" and "5 \<le> n"
    and "bordered_open_grid n vals border (frame b 0)"
    and "distinct [board_value vals, food_value vals, head_value vals, border]"
  shows "find_value (frame b 0) (head_value vals) = row_col_to_point n 1 1 \<and>
         find_value (frame b 0) (food_value vals) = row_col_to_point n 1 3 \<and>
         get_shortest_path n f vals b =
           Some (Inr [row_col_to_point n 1 3, row_col_to_point n 1 2, row_col_to_point n 1 1]) \<and>
         length [row_col_to_point n 1 3, row_col_to_point n 1 2, row_col_to_point n 1 1] = 3 \<and>
         bfs_action n f vals b = Some (Inr 0) \<and>
         bfs_move n f vals [b] = Some (Inr [0]) \<and>
         (\<forall>bs actions. bfs_move n f vals (b # bs) = Some (Inr actions) \<longrightarrow>
            actions \<noteq> [] \<and> hd actions = 0) \<and>
         direction_table (1, 0) = Some 0"
proof -
  note pts = open_board_points [OF assms(4,3,5)]
  note run = open_board_general [OF assms]
  have "bfs_move n f vals [b] = Some (Inr [0])" using run(2) by simp
  moreover have "\<forall>bs actions. bfs_move n f vals (b # bs) = Some (Inr actions) \<longrightarrow>
      actions \<noteq> [] \<and> hd actions = 0"
    using bfs_move_first [OF run(2)] by blast
  ultimately show ?thesis
    using pts run by (simp add: row_col_to_point_def direction_table_def)
qed

theorem bfs_open_board_witness:
  "has_shape 10 2 (board_of_grid open_grid) \<and> (2::nat) \<le> 2 \<and> (5::int) \<le> 10 \<and>
   bordered_open_grid 10 example_values 4 (frame (board_of_grid open_grid) 0) \<and>
   distinct [board_value example_values, food_value example_values,
     head_value example_values, 4] \<and>
   get_shortest_path 10 2 example_values (board_of_grid open_grid) = Some (Inr [13, 12, 11]) \<and>
   bfs_move 10 2 example_values [board_of_grid open_grid] = Some (Inr [0])"
proof -
  have h: "has_shape 10 2 (board_of_grid open_grid)" "(2::nat) \<le> 2" "(5::int) \<le> 10"
    "bordered_open_grid 10 example_values 4 (frame (board_of_grid open_grid) 0)"
    "distinct [board_value example_values, food_value example_values,
       head_value example_values, 4]"
    by code_simp+
  from bfs_open_board [OF h] h show ?thesis
    by (simp add: row_col_to_point_def)
qed

text \<open>
  An obstacle-free board of one frame: the path is the same, and \<^verbatim>\<open>move\<close> raises
  \<^verbatim>\<open>IndexError\<close> where it reads frame 1.
\<close>

theorem one_frame_move_raises:
  "has_shape 10 1 (one_frame_board open_grid) \<and>
   bordered_open_grid 10 example_values 4 (frame (one_frame_board open_grid) 0) \<and>
   get_shortest_path 10 1 example_values (one_frame_board open_grid) = Some (Inr [13, 12, 11]) \<and>
   bfs_move 10 1 example_values [one_frame_board open_grid] = Some (Inl IndexError) \<and>
   bfs_move 10 1 example_values [one_frame_board open_grid] \<noteq> Some (Inr [0])"
proof -
  have h: "has_shape 10 1 (one_frame_board open_grid)" "(5::int) \<le> 10"
    "bordered_open_grid 10 example_values 4 (frame (one_frame_board open_grid) 0)"
    "distinct [board_value example_values, food_value example_values,
       head_value example_values, 4]"
    by code_simp+
  note run = open_board_one_frame [OF h]
  have "bfs_move 10 1 example_values [one_frame_board open_grid] = Some (Inl IndexError)"
    using run(2) by simp
  with h(1,3) run(1) show ?thesis by simp
qed

end
